theory Spec2Isabelle
  imports Complex_Main "HOL-Library.Log_Nat"
begin

unbundle bit_operations_syntax

section \<open>Python values and errors\<close>

text \<open>
  Python integers are unbounded and are modelled by \<open>int\<close>; floats are IEEE 754
  doubles, modelled below with their rounding. Strings are lists of characters; the
  model covers ASCII text. Every exception the modelled code can raise is
  a value of \<open>py_error\<close>, and a function that can raise returns \<open>py_error + 'a\<close>
  (\<open>Inl\<close> the exception).
\<close>

datatype py_error =
    IndexError | ValueError | ZeroDivisionError | OverflowError | TypeError
  | UsageError | FileNotFoundError

subsection \<open>String methods used by the reader\<close>

text \<open>The ASCII characters for which \<^verbatim>\<open>str.isspace\<close> holds: 0x09 to 0x0D, 0x1C to 0x20.\<close>

definition is_space :: "char \<Rightarrow> bool" where
  "is_space c = (let n = of_char c :: nat in (9 \<le> n \<and> n \<le> 13) \<or> (28 \<le> n \<and> n \<le> 32))"

text \<open>\<^verbatim>\<open>s.strip()\<close>\<close>

definition str_strip :: "string \<Rightarrow> string" where
  "str_strip s = rev (dropWhile is_space (rev (dropWhile is_space s)))"

text \<open>\<^verbatim>\<open>s.split(sep)\<close> for a separator of one character; the result is never empty.\<close>

fun str_split :: "string \<Rightarrow> char \<Rightarrow> string list" where
  "str_split [] sep = [[]]"
| "str_split (c # cs) sep =
     (if c = sep then [] # str_split cs sep
      else (case str_split cs sep of [] \<Rightarrow> [[c]] | tok # toks \<Rightarrow> (c # tok) # toks))"

text \<open>\<^verbatim>\<open>s.startswith(prefix)\<close>, and the form that takes a tuple of prefixes.\<close>

fun str_startswith :: "string \<Rightarrow> string \<Rightarrow> bool" where
  "str_startswith s [] = True"
| "str_startswith [] (p # ps) = False"
| "str_startswith (c # cs) (p # ps) = (c = p \<and> str_startswith cs ps)"

definition str_startswith_any :: "string \<Rightarrow> string list \<Rightarrow> bool" where
  "str_startswith_any s prefixes = list_ex (str_startswith s) prefixes"

subsection \<open>The builtin \<open>int(item, base)\<close> on strings\<close>

text \<open>
  The value of a digit character: \<open>0\<close> to \<open>9\<close>, then the letters of either case from 10.
\<close>

definition digit_of :: "char \<Rightarrow> nat option" where
  "digit_of c =
     (let n = of_char c :: nat in
      if 48 \<le> n \<and> n \<le> 57 then Some (n - 48)
      else if 97 \<le> n \<and> n \<le> 122 then Some (n - 87)
      else if 65 \<le> n \<and> n \<le> 90 then Some (n - 55)
      else None)"

text \<open>
  The digits after sign and prefix, read left to right. An underscore is allowed only
  between two digits.
\<close>

fun digits_value :: "nat \<Rightarrow> string \<Rightarrow> nat \<Rightarrow> nat option" where
  "digits_value base [] acc = Some acc"
| "digits_value base (c # cs) acc =
     (if c = CHR ''_'' then
        (case cs of [] \<Rightarrow> None
         | d # _ \<Rightarrow> if d = CHR ''_'' then None else digits_value base cs acc)
      else
        (case digit_of c of None \<Rightarrow> None
         | Some d \<Rightarrow> if d < base then digits_value base cs (acc * base + d) else None))"

text \<open>
  The whitespace that \<open>int\<close> skips around the digits of an ASCII string: 0x09 to
  0x0D and the space. The separators 0x1C to 0x1F, which \<^verbatim>\<open>str.strip\<close> removes, are
  not among them.
\<close>

definition is_int_space :: "char \<Rightarrow> bool" where
  "is_int_space c = (let n = of_char c :: nat in (9 \<le> n \<and> n \<le> 13) \<or> n = 32)"

text \<open>
  \<^verbatim>\<open>int(item, base)\<close> for base 10 and base 16: surrounding whitespace is skipped, one sign
  is accepted, base 16 accepts the prefix \<open>0x\<close> or \<open>0X\<close> (with one underscore after it),
  at least one digit must follow, and anything else raises \<open>ValueError\<close>.
\<close>

definition py_int :: "string \<Rightarrow> nat \<Rightarrow> py_error + int" where
  "py_int item base =
     (let s = rev (dropWhile is_int_space (rev (dropWhile is_int_space item)));
          (sign, s) = (case s of c # cs \<Rightarrow>
                         if c = CHR ''+'' then (1, cs)
                         else if c = CHR ''-'' then (- 1, cs)
                         else (1, s)
                       | [] \<Rightarrow> (1, s));
          s = (if base = 16 \<and> (str_startswith s ''0x'' \<or> str_startswith s ''0X'')
               then (case drop 2 s of c # cs \<Rightarrow> if c = CHR ''_'' then cs else c # cs
                     | [] \<Rightarrow> [])
               else s)
      in case s of [] \<Rightarrow> Inl ValueError
         | c # _ \<Rightarrow>
             if c = CHR ''_'' then Inl ValueError
             else (case digits_value base s 0 of None \<Rightarrow> Inl ValueError
                   | Some n \<Rightarrow> Inr (sign * int n)))"

section \<open>File reader module\<close>

text \<open>
  The comprehension \<^verbatim>\<open>[out.append(int(item, base)) for item in items]\<close>: the items
  are converted in order and the first \<open>ValueError\<close> ends it.
\<close>

fun int_each :: "string list \<Rightarrow> nat \<Rightarrow> int list \<Rightarrow> py_error + int list" where
  "int_each [] base out = Inr out"
| "int_each (item # items) base out =
     (case py_int item base of Inl e \<Rightarrow> Inl e
      | Inr v \<Rightarrow> int_each items base (out @ [v]))"

text \<open>
  The tuple of prefixes in the decimal branch of \<open>Filereader.__process_line\<close>: the
  nine strings of one character \<open>1\<close> to \<open>9\<close>.
\<close>

definition decimal_prefixes :: "string list" where
  "decimal_prefixes = map (\<lambda>c. [c]) ''123456789''"

text \<open>
  \<open>Filereader.__process_line\<close>. Both \<^verbatim>\<open>items[-1]\<close> and \<^verbatim>\<open>items[0]\<close> raise
  \<open>IndexError\<close> on an empty list.
\<close>

definition process_line :: "string \<Rightarrow> py_error + int list" where
  "process_line line0 =
     (let line = str_strip line0;
          items = str_split line (CHR '','')
      in if items = [] then Inl IndexError
         else
           let items = (if last items = [] then butlast items else items)
           in case items of [] \<Rightarrow> Inl IndexError
              | item0 # _ \<Rightarrow>
                  if str_startswith item0 ''0x'' then int_each items 16 []
                  else if str_startswith_any item0 decimal_prefixes
                    then int_each items 10 []
                  else Inr [])"

text \<open>
  The loop \<^verbatim>\<open>for line in f\<close> of \<open>Filereader.read_file\<close>, over the lines of the file
  (each with its line end).
\<close>

fun read_loop :: "string list \<Rightarrow> string \<Rightarrow> bool \<Rightarrow> int list \<Rightarrow> py_error + int list" where
  "read_loop [] startswith is_processing out = Inr out"
| "read_loop (line # rest) startswith is_processing out =
     (if str_startswith line startswith then read_loop rest startswith True out
      else if str_startswith line ''};'' then Inr out
      else if is_processing then
        (case process_line line of Inl e \<Rightarrow> Inl e
         | Inr vs \<Rightarrow> read_loop rest startswith is_processing (out @ vs))
      else read_loop rest startswith is_processing out)"

text \<open>
  \<open>Filereader.read_file\<close>. The file system is a map from paths to the lines of the
  file; \<^verbatim>\<open>open(file)\<close> on a path that is not there raises \<open>FileNotFoundError\<close>.
\<close>

definition read_file :: "(string \<rightharpoonup> string list) \<Rightarrow> string \<Rightarrow> string \<Rightarrow> py_error + int list" where
  "read_file fs file startswith =
     (case fs file of None \<Rightarrow> Inl FileNotFoundError
      | Some f \<Rightarrow> read_loop f startswith False [])"

section \<open>Sample conversion module\<close>

subsection \<open>Floats\<close>

text \<open>
  A Python float is an IEEE 754 double: a finite double is modelled by the rational number
  it denotes, beside the two infinities and NaN. The sign of a zero is not kept; nothing
  in the modelled code observes it.
\<close>

datatype py_float = Finite rat | Inf_pos | Inf_neg | NaN

text \<open>
  The binade of a rational \<open>q \<noteq> 0\<close> is the exponent \<open>e\<close> with
  \<open>2^e \<le> \<bar>q\<bar> < 2^(e+1)\<close>, computed from the bit lengths of integer quotients.
\<close>

definition binade :: "rat \<Rightarrow> int" where
  "binade q =
     (let (a, b) = quotient_of \<bar>q\<bar>
      in if a = 0 then 0
         else if b \<le> a then bitlen (a div b) - 1
         else - bitlen ((b - 1) div a))"

text \<open>Rounding to the nearest integer, a tie going to the even one.\<close>

definition round_half_even :: "rat \<Rightarrow> int" where
  "round_half_even x =
     (let n = \<lfloor>x\<rfloor>; d = x - of_int n
      in if d < 1 / 2 then n else if 1 / 2 < d then n + 1 else if even n then n else n + 1)"

text \<open>
  The distance between neighbouring doubles around \<open>q\<close>: 53 significant bits, and the
  fixed spacing \<open>2^-1074\<close> of the subnormal numbers below \<open>2^-1022\<close>.
\<close>

definition ulp :: "rat \<Rightarrow> rat" where
  "ulp q = 2 powi (max (binade q) (- 1022) - 52)"

text \<open>
  Rounding to nearest, ties to even, in sign and magnitude; a result of magnitude
  \<open>2^1024\<close> or more is out of the range of the doubles and becomes an infinity.
\<close>

definition nearest_double :: "rat \<Rightarrow> rat" where
  "nearest_double q = sgn q * (of_int (round_half_even (\<bar>q\<bar> / ulp q)) * ulp q)"

definition round_double :: "rat \<Rightarrow> py_float" where
  "round_double q =
     (let r = nearest_double q
      in if 1024 \<le> binade r then (if 0 < q then Inf_pos else Inf_neg) else Finite r)"

text \<open>
  The conversion of an \<open>int\<close> operand to a float, which raises \<open>OverflowError\<close> when
  the integer is too large.
\<close>

definition float_of_int :: "int \<Rightarrow> py_error + py_float" where
  "float_of_int x =
     (case round_double (of_int x) of Finite r \<Rightarrow> Inr (Finite r) | _ \<Rightarrow> Inl OverflowError)"

text \<open>Float addition \<^verbatim>\<open>f + g\<close>, which raises nothing.\<close>

fun float_add :: "py_float \<Rightarrow> py_float \<Rightarrow> py_float" where
  "float_add NaN g = NaN"
| "float_add f NaN = NaN"
| "float_add Inf_pos Inf_neg = NaN"
| "float_add Inf_neg Inf_pos = NaN"
| "float_add Inf_pos g = Inf_pos"
| "float_add Inf_neg g = Inf_neg"
| "float_add f Inf_pos = Inf_pos"
| "float_add f Inf_neg = Inf_neg"
| "float_add (Finite x) (Finite y) = round_double (x + y)"

text \<open>Float division \<^verbatim>\<open>f / g\<close>, which raises \<open>ZeroDivisionError\<close> for a zero divisor.\<close>

fun float_div :: "py_float \<Rightarrow> py_float \<Rightarrow> py_error + py_float" where
  "float_div f (Finite y) =
     (if y = 0 then Inl ZeroDivisionError
      else case f of
        Finite x \<Rightarrow> Inr (round_double (x / y))
      | Inf_pos \<Rightarrow> Inr (if 0 < y then Inf_pos else Inf_neg)
      | Inf_neg \<Rightarrow> Inr (if 0 < y then Inf_neg else Inf_pos)
      | NaN \<Rightarrow> Inr NaN)"
| "float_div (Finite x) g = Inr (case g of NaN \<Rightarrow> NaN | _ \<Rightarrow> Finite 0)"
| "float_div f g = Inr NaN"

text \<open>
  True division \<^verbatim>\<open>a / b\<close> of two integers: the quotient correctly rounded, or
  \<open>OverflowError\<close> when it is too large for a float.
\<close>

definition int_truediv :: "int \<Rightarrow> int \<Rightarrow> py_error + py_float" where
  "int_truediv a b =
     (if b = 0 then Inl ZeroDivisionError
      else case round_double (of_int a / of_int b) of
        Finite r \<Rightarrow> Inr (Finite r)
      | _ \<Rightarrow> Inl OverflowError)"

text \<open>\<^verbatim>\<open>int(f)\<close>: truncation toward zero.\<close>

fun int_of_float :: "py_float \<Rightarrow> py_error + int" where
  "int_of_float (Finite r) = Inr (if r < 0 then - \<lfloor>- r\<rfloor> else \<lfloor>r\<rfloor>)"
| "int_of_float NaN = Inl ValueError"
| "int_of_float f = Inl OverflowError"

subsection \<open>\<open>Converter.reduce_samplerate\<close>\<close>

text \<open>
  The accumulator \<open>sample_sum\<close> starts as the float \<open>0.0\<close> and is set to the integer
  \<open>0\<close> after an emission, so it is a float or an integer.
\<close>

datatype number = Int_val int | Float_val py_float

text \<open>\<^verbatim>\<open>sample_sum + sample_data[i]\<close>, the sample being an integer.\<close>

definition number_add_int :: "number \<Rightarrow> int \<Rightarrow> py_error + number" where
  "number_add_int sample_sum x =
     (case sample_sum of
        Int_val s \<Rightarrow> Inr (Int_val (s + x))
      | Float_val f \<Rightarrow>
          (case float_of_int x of Inl e \<Rightarrow> Inl e
           | Inr g \<Rightarrow> Inr (Float_val (float_add f g))))"

text \<open>\<^verbatim>\<open>sample_sum / ratio\<close>, the ratio being an integer.\<close>

definition number_truediv_int :: "number \<Rightarrow> int \<Rightarrow> py_error + py_float" where
  "number_truediv_int sample_sum ratio =
     (case sample_sum of
        Int_val s \<Rightarrow> int_truediv s ratio
      | Float_val f \<Rightarrow>
          (case float_of_int ratio of Inl e \<Rightarrow> Inl e
           | Inr g \<Rightarrow> float_div f g))"

text \<open>The emitted value \<^verbatim>\<open>int(sample_sum / ratio)\<close>.\<close>

definition emit_value :: "number \<Rightarrow> int \<Rightarrow> py_error + int" where
  "emit_value sample_sum ratio =
     (case number_truediv_int sample_sum ratio of Inl e \<Rightarrow> Inl e
      | Inr q \<Rightarrow> int_of_float q)"

text \<open>
  The loop over \<open>i\<close> in \<open>range(len(sample_data))\<close>, from index \<open>i\<close> on, with the
  accumulator \<open>sample_sum\<close> and the output \<open>out\<close> so far. \<^verbatim>\<open>i % ratio\<close> raises
  \<open>ZeroDivisionError\<close> for \<open>ratio = 0\<close>; for every other ratio Python's \<open>%\<close> is \<open>mod\<close>.
\<close>

fun reduce_loop :: "int list \<Rightarrow> int \<Rightarrow> nat \<Rightarrow> number \<Rightarrow> int list \<Rightarrow> py_error + int list" where
  "reduce_loop [] ratio i sample_sum out = Inr out"
| "reduce_loop (x # rest) ratio i sample_sum out =
     (case number_add_int sample_sum x of Inl e \<Rightarrow> Inl e
      | Inr sample_sum \<Rightarrow>
          if ratio = 0 then Inl ZeroDivisionError
          else if int i mod ratio = 0 then
            (case emit_value sample_sum ratio of Inl e \<Rightarrow> Inl e
             | Inr v \<Rightarrow> reduce_loop rest ratio (Suc i) (Int_val 0) (out @ [v]))
          else reduce_loop rest ratio (Suc i) sample_sum out)"

definition reduce_samplerate :: "int list \<Rightarrow> int \<Rightarrow> py_error + int list" where
  "reduce_samplerate sample_data ratio =
     reduce_loop sample_data ratio 0 (Float_val (Finite 0)) []"

subsection \<open>\<open>Converter.twos_complement\<close>\<close>

text \<open>
  The value appended in one round of the loop:
  \<^verbatim>\<open>current_sample - (max_value + 1) if current_sample > max_value else abs(~current_sample) + max_value\<close>
\<close>

definition twos_complement_value :: "int \<Rightarrow> int \<Rightarrow> int" where
  "twos_complement_value current_sample max_value =
     (if current_sample > max_value then current_sample - (max_value + 1)
      else \<bar>NOT current_sample\<bar> + max_value)"

text \<open>The loop over \<open>range(len(sample_data))\<close>; \<open>out\<close> is the list being appended to.\<close>

fun twos_complement_loop :: "int list \<Rightarrow> int \<Rightarrow> int list \<Rightarrow> int list" where
  "twos_complement_loop [] max_value out = out"
| "twos_complement_loop (current_sample # rest) max_value out =
     twos_complement_loop rest max_value (out @ [twos_complement_value current_sample max_value])"

definition twos_complement :: "int list \<Rightarrow> int \<Rightarrow> int list" where
  "twos_complement sample_data max_value = twos_complement_loop sample_data max_value []"

section \<open>The driver\<close>

text \<open>
  The namespace that \<open>parse_args\<close> returns. A flag given with \<open>store_true\<close> is a
  boolean; an option that was not given on the command line is \<open>None\<close>; \<open>-dec\<close> has
  the default \<open>static const\<close>.
\<close>

record args =
  arg_p :: bool
  arg_plt :: bool
  arg_path :: string
  arg_dec :: string
  arg_cut :: "int option"
  arg_ratio :: "int option"
  arg_t :: bool
  arg_wb :: "string option"
  arg_sr :: "int option"

text \<open>
  The keys of \<^verbatim>\<open>vars(args)\<close>: argparse sets an attribute for every argument that was
  added to the parser, given or not.
\<close>

definition vars_keys :: "args \<Rightarrow> string list" where
  "vars_keys a = [''p'', ''plt'', ''path'', ''dec'', ''cut'', ''ratio'', ''t'', ''wb'', ''sr'']"

text \<open>The slice \<^verbatim>\<open>xs[:k]\<close>.\<close>

definition slice_to :: "'a list \<Rightarrow> int \<Rightarrow> 'a list" where
  "slice_to xs k = (if k < 0 then take (nat (int (length xs) + k)) xs else take (nat k) xs)"

text \<open>
  What the program does to the outside, in order: opening the input file, printing,
  calling the wave file writer (data, path, sample rate), plotting.
\<close>

datatype event =
    Open_file string
  | Print_sample "int list"
  | Write_wavefile "int list" string "int option"
  | Plot_sample "int list"

text \<open>
  \<open>Writeback.write_wavefile\<close> converts the data to a numpy array of 16-bit integers
  and hands it to \<open>soundfile.write\<close>. What the two libraries do with the data is
  outside this model; of their behaviour it keeps only that \<open>soundfile.write\<close> raises
  \<open>TypeError\<close> when the sample rate is \<open>None\<close>. The result is the exception raised,
  if any.
\<close>

definition write_wavefile :: "int list \<Rightarrow> string \<Rightarrow> int option \<Rightarrow> py_error option" where
  "write_wavefile sample_data path samplerate =
     (case samplerate of None \<Rightarrow> Some TypeError | Some sr \<Rightarrow> None)"

text \<open>
  The stages of the body under \<^verbatim>\<open>if __name__ == '__main__'\<close>, in the order of the
  source. A value of \<open>None\<close> or \<open>0\<close> is false in \<^verbatim>\<open>if args.cut\<close> and
  \<^verbatim>\<open>if args.ratio\<close>, and so is \<open>None\<close> or the empty string in \<^verbatim>\<open>if args.wb\<close>.
\<close>

definition cut_stage :: "args \<Rightarrow> int list \<Rightarrow> int list" where
  "cut_stage a sample =
     (case arg_cut a of None \<Rightarrow> sample
      | Some c \<Rightarrow> (if c \<noteq> 0 then slice_to sample (- c) else sample))"

definition ratio_stage :: "args \<Rightarrow> int list \<Rightarrow> py_error + int list" where
  "ratio_stage a sample =
     (case arg_ratio a of None \<Rightarrow> Inr sample
      | Some r \<Rightarrow> (if r \<noteq> 0 then reduce_samplerate sample r else Inr sample))"

definition t_stage :: "args \<Rightarrow> int list \<Rightarrow> int list" where
  "t_stage a sample = (if arg_t a then twos_complement sample 0x7F else sample)"

definition print_stage :: "args \<Rightarrow> int list \<Rightarrow> event list" where
  "print_stage a sample = (if arg_p a then [Print_sample sample] else [])"

definition wb_stage :: "args \<Rightarrow> int list \<Rightarrow> event list \<times> py_error option" where
  "wb_stage a sample =
     (case arg_wb a of None \<Rightarrow> ([], None)
      | Some w \<Rightarrow>
          (if w \<noteq> [] then
             ([Write_wavefile (twos_complement sample 0x7F) w (arg_sr a)],
              write_wavefile (twos_complement sample 0x7F) w (arg_sr a))
           else ([], None)))"

definition plt_stage :: "args \<Rightarrow> int list \<Rightarrow> event list" where
  "plt_stage a sample = (if arg_plt a then [Plot_sample sample] else [])"

text \<open>
  The whole body, after \<open>parse_args\<close>: the events in the order they happen, and the
  exception that ended the run, if any. \<open>parser.error\<close> ends the run with a usage
  error.
\<close>

definition main :: "(string \<rightharpoonup> string list) \<Rightarrow> args \<Rightarrow> event list \<times> py_error option" where
  "main fs a =
     (if ''wb'' \<in> set (vars_keys a) \<and> ''sr'' \<notin> set (vars_keys a) then ([], Some UsageError)
      else
        (case read_file fs (arg_path a) (arg_dec a) of
           Inl e \<Rightarrow> ([Open_file (arg_path a)], Some e)
         | Inr sample \<Rightarrow>
             (case ratio_stage a (cut_stage a sample) of
                Inl e \<Rightarrow> ([Open_file (arg_path a)], Some e)
              | Inr reduced \<Rightarrow>
                  (case wb_stage a (t_stage a reduced) of
                     (written, Some e) \<Rightarrow>
                       ([Open_file (arg_path a)] @ print_stage a (t_stage a reduced) @ written,
                        Some e)
                   | (written, None) \<Rightarrow>
                       ([Open_file (arg_path a)] @ print_stage a (t_stage a reduced) @ written
                          @ plt_stage a (t_stage a reduced),
                        None)))))"

section \<open>Block structure of the rate reducer\<close>

text \<open>
  The input indices below \<open>n\<close> at which \<open>i % ratio == 0\<close>, in increasing order.
\<close>

definition emit_indices :: "nat \<Rightarrow> int \<Rightarrow> nat list" where
  "emit_indices n ratio = filter (\<lambda>i. int i mod ratio = 0) [0..<n]"

text \<open>
  The samples added to the accumulator since the emission before index \<open>i\<close>: those at the
  indices above \<open>i - \<bar>ratio\<bar>\<close> up to \<open>i\<close>.
\<close>

definition window :: "int list \<Rightarrow> int \<Rightarrow> nat \<Rightarrow> int list" where
  "window xs ratio i = drop (Suc i - nat \<bar>ratio\<bar>) (take (Suc i) xs)"

text \<open>
  The accumulator when the sample at the emission index \<open>i\<close> has been added: at index
  \<open>0\<close> the float \<open>0.0\<close> plus the first sample, later the integer sum of the window.
\<close>

definition accumulator :: "int list \<Rightarrow> int \<Rightarrow> nat \<Rightarrow> py_error + number" where
  "accumulator xs ratio i =
     (if i = 0 then number_add_int (Float_val (Finite 0)) (xs ! 0)
      else Inr (Int_val (sum_list (window xs ratio i))))"

text \<open>The value emitted at the index \<open>i\<close>, or the exception raised there.\<close>

definition emission :: "int list \<Rightarrow> int \<Rightarrow> nat \<Rightarrow> py_error + int" where
  "emission xs ratio i =
     (case accumulator xs ratio i of Inl e \<Rightarrow> Inl e
      | Inr sample_sum \<Rightarrow> emit_value sample_sum ratio)"

text \<open>The results of a list of steps that may raise: the first exception ends it.\<close>

fun collect :: "(py_error + 'a) list \<Rightarrow> py_error + 'a list" where
  "collect [] = Inr []"
| "collect (r # rs) =
     (case r of Inl e \<Rightarrow> Inl e
      | Inr v \<Rightarrow> (case collect rs of Inl e \<Rightarrow> Inl e | Inr vs \<Rightarrow> Inr (v # vs)))"

text \<open>The quotient of two integers, truncated toward zero, in exact arithmetic.\<close>

definition truncated_quotient :: "int \<Rightarrow> int \<Rightarrow> int" where
  "truncated_quotient a b = sgn a * sgn b * (\<bar>a\<bar> div \<bar>b\<bar>)"

text \<open>
  The range in which the float arithmetic of the rate reducer is exact: the ratio and the
  sum of every window are below \<open>2^53\<close> in magnitude.
\<close>

definition exact_range :: "int list \<Rightarrow> int \<Rightarrow> bool" where
  "exact_range xs ratio =
     (\<bar>ratio\<bar> < 2 ^ 53
      \<and> list_all (\<lambda>i. \<bar>sum_list (window xs ratio i)\<bar> < 2 ^ 53) (emit_indices (length xs) ratio))"

section \<open>Example inputs\<close>

text \<open>
  Header files as the lines the reader iterates over: the same three samples in decimal
  and in hexadecimal form, a header with a blank line inside the array, and a header
  whose declaration does not start with the marker.
\<close>

definition header_decimal :: "string list" where
  "header_decimal =
     [''static const unsigned char kick[] = {\<newline>'', ''0, 1, 2,\<newline>'', ''};\<newline>'']"

definition header_hex :: "string list" where
  "header_hex =
     [''static const unsigned char kick[] = {\<newline>'', ''0x00, 0x01, 0x02,\<newline>'', ''};\<newline>'']"

definition header_blank_line :: "string list" where
  "header_blank_line =
     [''static const unsigned char kick[] = {\<newline>'', ''0x00, 0x01,\<newline>'', ''  \<newline>'',
      ''0x02,\<newline>'', ''};\<newline>'']"

definition header_no_marker :: "string list" where
  "header_no_marker =
     [''#include <stdint.h>\<newline>'', ''const uint8_t kick[] = {\<newline>'', ''0x00, 0x01, 0x02,\<newline>'',
      ''};\<newline>'']"

text \<open>
  The namespace of \<^verbatim>\<open>python sample_handler kick.h -t -wb out.wav\<close>: a write back is
  asked for and no sample rate is given.
\<close>

definition args_wb_without_sr :: args where
  "args_wb_without_sr =
     \<lparr>arg_p = False, arg_plt = False, arg_path = ''kick.h'', arg_dec = ''static const'',
      arg_cut = None, arg_ratio = None, arg_t = True, arg_wb = Some ''out.wav'',
      arg_sr = None\<rparr>"

section \<open>Helper lemmas\<close>

subsection \<open>The re-encoder is a map\<close>

lemma twos_complement_loop_map:
  "twos_complement_loop xs m out = out @ map (\<lambda>v. twos_complement_value v m) xs"
  by (induction xs arbitrary: out) simp_all

lemma twos_complement_map:
  "twos_complement xs m = map (\<lambda>v. twos_complement_value v m) xs"
  by (simp add: twos_complement_def twos_complement_loop_map)

lemma twos_complement_value_cases:
  "twos_complement_value v m =
     (if v > m then v - m - 1 else if - 1 \<le> v then v + m + 1 else m - v - 1)"
  by (simp add: twos_complement_value_def not_int_def)

lemma twos_complement_value_twice:
  assumes "0 \<le> v" and "v \<le> 2 * m + 1"
  shows "twos_complement_value (twos_complement_value v m) m = v"
  using assms by (simp add: twos_complement_value_cases)

lemma twos_complement_twice:
  assumes "\<forall>v\<in>set xs. 0 \<le> v \<and> v \<le> 2 * m + 1"
  shows "twos_complement (twos_complement xs m) m = xs"
  using assms by (simp add: twos_complement_map twos_complement_value_twice map_idI)

text \<open>
  With \<open>-t\<close> and \<open>-wb\<close>, the data handed to the wave file writer are the samples as
  they were before the re-encoding, when these are 8-bit unsigned values.
\<close>

lemma wb_stage_restores:
  assumes "arg_t a" and "arg_wb a = Some w" and "w \<noteq> []"
    and "\<forall>v\<in>set sample. 0 \<le> v \<and> v \<le> 255"
  shows "fst (wb_stage a (t_stage a sample)) = [Write_wavefile sample w (arg_sr a)]"
proof -
  have "\<forall>v\<in>set sample. 0 \<le> v \<and> v \<le> 2 * 0x7F + 1" using assms(4) by simp
  then have "twos_complement (twos_complement sample 0x7F) 0x7F = sample"
    by (rule twos_complement_twice)
  then show ?thesis using assms(1-3) by (simp add: wb_stage_def t_stage_def)
qed

subsection \<open>Arithmetic of the emission indices\<close>

lemma emit_cond_dvd: "r \<noteq> 0 \<Longrightarrow> (int i mod r = 0) = (nat \<bar>r\<bar> dvd i)"
proof -
  assume "r \<noteq> 0"
  have "(int i mod r = 0) = (r dvd int i)" by (simp add: mod_eq_0_iff_dvd)
  also have "\<dots> = (\<bar>r\<bar> dvd int i)" by simp
  also have "\<dots> = (int (nat \<bar>r\<bar>) dvd int i)" by simp
  also have "\<dots> = (nat \<bar>r\<bar> dvd i)" by (rule int_dvd_int_iff)
  finally show ?thesis .
qed

lemma pred_mod_of_dvd:
  fixes n R :: nat
  assumes "R dvd n" and "0 < n"
  shows "(n - 1) mod R = R - 1"
proof -
  obtain k where k: "n = Suc k" using assms(2) by (cases n) auto
  have "Suc k mod R = 0" using assms(1) k by (simp add: mod_eq_0_iff_dvd)
  then have "Suc (k mod R) = R" by (simp add: mod_Suc split: if_splits)
  then show ?thesis using k by simp
qed

lemma mod_of_not_dvd:
  fixes n R :: nat
  assumes "\<not> R dvd n"
  shows "n mod R = Suc ((n - 1) mod R)"
proof -
  have "n \<noteq> 0"
  proof
    assume "n = 0"
    then show False using assms by simp
  qed
  then obtain k where k: "n = Suc k" by (cases n) auto
  have "Suc k mod R \<noteq> 0" using assms k by (simp add: mod_eq_0_iff_dvd)
  then show ?thesis using k by (simp add: mod_Suc split: if_splits)
qed

lemma window_start:
  fixes n R :: nat
  assumes "0 < R" and "R dvd n"
  shows "n - (n - 1) mod R = Suc n - R"
proof (cases "n = 0")
  case True
  then show ?thesis using assms(1) by simp
next
  case False
  then have "(n - 1) mod R = R - 1" using assms(2) pred_mod_of_dvd by simp
  then have "n - (n - 1) mod R = n - (R - 1)" by (rule arg_cong)
  moreover have "R \<le> n" using assms(2) False by (simp add: dvd_imp_le)
  ultimately show ?thesis using assms(1) by arith
qed

lemma ceil_div_dvd:
  fixes n R :: nat
  assumes "0 < R" and "R dvd n"
  shows "(n + R - 1) div R = n div R"
proof -
  obtain k where k: "n = k * R" using assms(2) by (auto simp: dvd_def mult.commute)
  have "n + R - 1 = (R - 1) + k * R" using assms(1) k by arith
  then have "(n + R - 1) div R = ((R - 1) + k * R) div R" by (rule arg_cong)
  also have "\<dots> = k + (R - 1) div R" using assms(1) by (simp only: div_mult_self1)
  also have "\<dots> = k" using assms(1) by simp
  finally show ?thesis using assms(1) k by simp
qed

lemma ceil_div_not_dvd:
  fixes n R :: nat
  assumes "0 < R" and "\<not> R dvd n"
  shows "(n + R - 1) div R = Suc (n div R)"
proof -
  have "n mod R \<noteq> 0" using assms(2) by (simp add: mod_eq_0_iff_dvd)
  then have m: "0 < n mod R" by simp
  have "n = n mod R + (n div R) * R" by simp
  then have "n + R - 1 = (n mod R - 1) + Suc (n div R) * R" using m by simp
  then have "(n + R - 1) div R = ((n mod R - 1) + Suc (n div R) * R) div R" by (rule arg_cong)
  also have "\<dots> = Suc (n div R) + (n mod R - 1) div R" using assms(1)
    by (simp only: div_mult_self1)
  also have "(n mod R - 1) div R = 0" using assms(1) m
    by (simp add: less_imp_diff_less)
  finally show ?thesis by simp
qed

lemma emit_indices_Suc:
  "emit_indices (Suc n) r = emit_indices n r @ (if int n mod r = 0 then [n] else [])"
  by (simp add: emit_indices_def)

lemma emit_indices_less: "i \<in> set (emit_indices n r) \<Longrightarrow> i < n"
  by (simp add: emit_indices_def)

text \<open>The emissions are at the multiples of \<open>\<bar>ratio\<bar>\<close>, and there are \<open>\<lceil>n / \<bar>ratio\<bar>\<rceil>\<close> of them.\<close>

lemma emit_indices_multiples:
  assumes "r \<noteq> 0"
  shows "emit_indices n r = map (\<lambda>k. k * nat \<bar>r\<bar>) [0..<(n + nat \<bar>r\<bar> - 1) div nat \<bar>r\<bar>]"
proof (induction n)
  case 0
  show ?case using assms by (simp add: emit_indices_def)
next
  case (Suc n)
  let ?R = "nat \<bar>r\<bar>"
  have R: "0 < ?R" using assms by simp
  have shift: "(Suc n + ?R - 1) div ?R = Suc (n div ?R)"
  proof -
    have "Suc n + ?R - 1 = n + 1 * ?R" using R by simp
    then have "(Suc n + ?R - 1) div ?R = (n + 1 * ?R) div ?R" by (rule arg_cong)
    also have "\<dots> = 1 + n div ?R" using R by (simp only: div_mult_self1)
    finally show ?thesis by simp
  qed
  show ?case
  proof (cases "?R dvd n")
    case True
    then have emit: "int n mod r = 0" using assms by (simp add: emit_cond_dvd)
    have c: "(n + ?R - 1) div ?R = n div ?R" using R True by (rule ceil_div_dvd)
    have "n div ?R * ?R = n" using True by simp
    then show ?thesis using Suc.IH emit
      unfolding emit_indices_Suc shift c by simp
  next
    case False
    then have emit: "int n mod r \<noteq> 0" using assms by (simp add: emit_cond_dvd)
    have c: "(n + ?R - 1) div ?R = Suc (n div ?R)" using R False by (rule ceil_div_not_dvd)
    show ?thesis using Suc.IH emit
      unfolding emit_indices_Suc shift c by simp
  qed
qed

lemma length_emit_indices:
  "r \<noteq> 0 \<Longrightarrow> length (emit_indices n r) = (n + nat \<bar>r\<bar> - 1) div nat \<bar>r\<bar>"
  by (simp add: emit_indices_multiples)

subsection \<open>Rounding to a double\<close>

lemma round_half_even_of_int: "round_half_even (of_int n) = n"
  by (simp add: round_half_even_def)

lemma round_half_even_ge: "\<lfloor>x\<rfloor> \<le> round_half_even x"
  by (simp add: round_half_even_def Let_def)

lemma round_half_even_le: "round_half_even x \<le> \<lfloor>x\<rfloor> + 1"
  by (simp add: round_half_even_def Let_def)

lemma round_half_even_up: "round_half_even x \<noteq> \<lfloor>x\<rfloor> \<Longrightarrow> 1 / 2 \<le> x - of_int \<lfloor>x\<rfloor>"
  by (simp add: round_half_even_def Let_def split: if_splits)

lemma binade_zero: "binade 0 = 0"
  by (simp add: binade_def)

lemma binade_abs: "binade \<bar>q\<bar> = binade q"
  by (simp add: binade_def)

lemma binade_bounds:
  assumes "q \<noteq> 0"
  shows "2 powi binade q \<le> \<bar>q\<bar> \<and> \<bar>q\<bar> < 2 powi (binade q + 1)"
proof -
  obtain a b where ab: "quotient_of \<bar>q\<bar> = (a, b)" by (cases "quotient_of \<bar>q\<bar>") 
  have b: "0 < b" using ab by (rule quotient_of_denom_pos)
  have q: "\<bar>q\<bar> = of_int a / of_int b" using ab by (rule quotient_of_div)
  have "0 < \<bar>q\<bar>" using assms by simp
  then have a: "0 < a" using q b by (simp add: zero_less_divide_iff)
  show ?thesis
  proof (cases "b \<le> a")
    case True
    let ?x = "a div b"
    have x: "0 < ?x" using True b by (simp add: pos_imp_zdiv_pos_iff)
    have e: "binade q = bitlen ?x - 1" using ab a True by (simp add: binade_def)
    from bitlen_bounds [OF x] have lo: "2 ^ nat (bitlen ?x - 1) \<le> ?x" and hi: "?x < 2 ^ nat (bitlen ?x)"
      by simp_all
    have pos: "1 \<le> bitlen ?x" using x bitlen_eq_zero_iff [of ?x] bitlen_nonneg [of ?x] by linarith
    have fl: "\<lfloor>\<bar>q\<bar>\<rfloor> = ?x" unfolding q by (rule floor_divide_of_int_eq)
    have "(2::rat) powi (bitlen ?x - 1) = 2 ^ nat (bitlen ?x - 1)"
      using pos by (simp add: power_int_def)
    also have "\<dots> = of_int (2 ^ nat (bitlen ?x - 1))" by simp
    also have "\<dots> \<le> of_int ?x" using lo by (simp only: of_int_le_iff)
    also have "\<dots> \<le> \<bar>q\<bar>" using fl of_int_floor_le [of "\<bar>q\<bar>"] by simp
    finally have L: "2 powi binade q \<le> \<bar>q\<bar>" using e by simp
    have "\<bar>q\<bar> < of_int (\<lfloor>\<bar>q\<bar>\<rfloor> + 1)" by linarith
    also have "\<dots> = of_int (?x + 1)" using fl by simp
    also have "\<dots> \<le> of_int (2 ^ nat (bitlen ?x))" using hi by (simp only: of_int_le_iff)
    also have "\<dots> = (2::rat) powi (bitlen ?x)" using pos by (simp add: power_int_def)
    finally have "\<bar>q\<bar> < 2 powi (binade q + 1)" using e by simp
    with L show ?thesis by simp
  next
    case False
    let ?y = "(b - 1) div a"
    have y: "0 < ?y" using False a by (simp add: pos_imp_zdiv_pos_iff)
    have e: "binade q = - bitlen ?y" using ab a False by (simp add: binade_def)
    from bitlen_bounds [OF y] have lo: "2 ^ nat (bitlen ?y - 1) \<le> ?y" and hi: "?y < 2 ^ nat (bitlen ?y)"
      by simp_all
    have pos: "1 \<le> bitlen ?y" using y bitlen_eq_zero_iff [of ?y] bitlen_nonneg [of ?y] by linarith
    define n where "n = nat (bitlen ?y)"
    have n: "bitlen ?y = int n" "0 < n" using pos by (simp_all add: n_def)
    have lo': "(2::int) ^ (n - 1) \<le> ?y" using lo n by (simp add: nat_diff_distrib)
    have hi': "?y < 2 ^ n" using hi n by simp
    have dm: "?y * a + (b - 1) mod a = b - 1" by simp
    have r: "0 \<le> (b - 1) mod a" "(b - 1) mod a < a" using a by simp_all
    have d1: "?y * a \<le> b - 1" using dm r(1) by linarith
    have "(?y + 1) * a = ?y * a + a" by (simp add: algebra_simps)
    then have d2: "b - 1 < (?y + 1) * a" using dm r(2) by linarith
    have "b \<le> (?y + 1) * a" using d2 by simp
    also have "\<dots> \<le> 2 ^ n * a" using hi' a by (simp add: mult_right_mono)
    finally have bl: "b \<le> 2 ^ n * a" .
    have "2 ^ (n - 1) * a \<le> ?y * a" using lo' a by (simp add: mult_right_mono)
    then have bu: "2 ^ (n - 1) * a < b" using d1 by linarith
    have "(of_int b :: rat) \<le> of_int (2 ^ n * a)" using bl by (simp only: of_int_le_iff)
    then have "(of_int b :: rat) \<le> 2 ^ n * of_int a" by simp
    then have "(1::rat) / 2 ^ n \<le> of_int a / of_int b" using b
      by (simp add: field_simps)
    then have L: "2 powi binade q \<le> \<bar>q\<bar>" using e n q
      by (simp add: power_int_minus field_simps)
    have "(of_int (2 ^ (n - 1) * a) :: rat) < of_int b" using bu by (simp only: of_int_less_iff)
    then have "(2::rat) ^ (n - 1) * of_int a < of_int b" by simp
    then have "of_int a / of_int b < (1::rat) / 2 ^ (n - 1)" using b
      by (simp add: field_simps)
    moreover have "(2::rat) powi (- int n + 1) = 1 / 2 ^ (n - 1)"
    proof -
      have "- int n + 1 = - int (n - 1)" using n(2) by simp
      then show ?thesis by (simp only: power_int_minus power_int_of_nat inverse_eq_divide)
    qed
    ultimately have "\<bar>q\<bar> < 2 powi (binade q + 1)" using e n q by simp
    with L show ?thesis by simp
  qed
qed

lemma binade_less:
  assumes "\<bar>r\<bar> < 2 powi k" and "0 < k"
  shows "binade r < k"
proof (cases "r = 0")
  case True
  then show ?thesis using assms(2) by (simp add: binade_zero)
next
  case False
  show ?thesis
  proof (rule ccontr)
    assume "\<not> binade r < k"
    then have "k \<le> binade r" by simp
    then have "(2::rat) powi k \<le> 2 powi binade r" by (simp add: power_int_increasing)
    also have "\<dots> \<le> \<bar>r\<bar>" using binade_bounds [OF False] by simp
    finally show False using assms(1) by simp
  qed
qed

lemma ulp_form:
  assumes "q \<noteq> 0" and "\<bar>q\<bar> < 2 ^ 53"
  shows "\<exists>k. ulp q = inverse (2 ^ k)
           \<and> (- 1022 \<le> binade q \<longrightarrow> int k = 52 - binade q)
           \<and> (binade q < - 1022 \<longrightarrow> k = 1074)"
proof -
  have "\<bar>q\<bar> < 2 powi 53" using assms(2) by simp
  then have e: "binade q < 53" by (rule binade_less) simp
  define k where "k = nat (52 - max (binade q) (- 1022))"
  have k: "max (binade q) (- 1022) - 52 = - int k" using e by (simp add: k_def)
  have "ulp q = inverse (2 ^ k)"
    unfolding ulp_def k by (simp only: power_int_minus power_int_of_nat)
  moreover have "- 1022 \<le> binade q \<longrightarrow> int k = 52 - binade q" using e by (simp add: k_def)
  moreover have "binade q < - 1022 \<longrightarrow> k = 1074" by (simp add: k_def)
  ultimately show ?thesis by blast
qed

text \<open>An integer below \<open>2^53\<close> in magnitude is a double.\<close>

lemma nearest_double_of_int:
  assumes "\<bar>x\<bar> < 2 ^ 53"
  shows "nearest_double (of_int x) = of_int x"
proof (cases "x = 0")
  case True
  then show ?thesis by (simp add: nearest_double_def)
next
  case False
  let ?q = "of_int x :: rat"
  have q0: "?q \<noteq> 0" using False by simp
  have "\<bar>?q\<bar> = of_int \<bar>x\<bar>" by simp
  also have "\<dots> < of_int (2 ^ 53)" using assms by (simp only: of_int_less_iff)
  finally have qb: "\<bar>?q\<bar> < 2 ^ 53" by simp
  from ulp_form [OF q0 qb] obtain k where u: "ulp ?q = inverse (2 ^ k)" by blast
  have "\<bar>?q\<bar> / ulp ?q = of_int (\<bar>x\<bar> * 2 ^ k)" unfolding u by (simp add: field_simps)
  then have "round_half_even (\<bar>?q\<bar> / ulp ?q) = \<bar>x\<bar> * 2 ^ k"
    by (simp only: round_half_even_of_int)
  then have "nearest_double ?q = sgn ?q * (of_int (\<bar>x\<bar> * 2 ^ k) * inverse (2 ^ k))"
    unfolding nearest_double_def u by simp
  also have "\<dots> = sgn ?q * \<bar>?q\<bar>" by (simp add: field_simps)
  also have "\<dots> = ?q" by (simp add: sgn_mult_abs)
  finally show ?thesis .
qed

lemma round_double_of_int:
  assumes "\<bar>x\<bar> < 2 ^ 53"
  shows "round_double (of_int x) = Finite (of_int x)"
proof -
  have "\<bar>of_int x :: rat\<bar> = of_int \<bar>x\<bar>" by simp
  also have "\<dots> < of_int (2 ^ 53)" using assms by (simp only: of_int_less_iff)
  finally have "\<bar>of_int x :: rat\<bar> < 2 powi 53" by simp
  then have "binade (of_int x) < 53" by (rule binade_less) simp
  then show ?thesis
    using assms by (simp add: round_double_def nearest_double_of_int)
qed

text \<open>
  The quotient of a natural number below \<open>2^53\<close> by a positive number rounds to a double
  with the same integer part.
\<close>

lemma nearest_double_quotient:
  fixes a b :: int
  assumes a: "0 \<le> a" "a < 2 ^ 53" and b: "0 < b"
  defines "q \<equiv> (of_int a / of_int b :: rat)"
  shows "0 \<le> nearest_double q \<and> nearest_double q < 2 ^ 53
         \<and> \<lfloor>nearest_double q\<rfloor> = a div b"
proof (cases "a = 0")
  case True
  then show ?thesis by (simp add: q_def nearest_double_def)
next
  case False
  let ?m = "a div b"
  have apos: "0 < a" using a(1) False by simp
  have qpos: "0 < q" using apos b by (simp add: q_def)
  have qa: "q * of_int b = of_int a" using b by (simp add: q_def)
  have "q \<le> of_int a" using b a(1) by (simp add: q_def field_simps mult_le_cancel_left1)
  also have "(of_int a :: rat) < of_int (2 ^ 53)" using a(2) by (simp only: of_int_less_iff)
  finally have qb: "\<bar>q\<bar> < 2 ^ 53" using qpos by simp
  have fl: "\<lfloor>q\<rfloor> = ?m" unfolding q_def by (rule floor_divide_of_int_eq)
  have m0: "0 \<le> ?m" using a(1) b by (simp add: pos_imp_zdiv_nonneg_iff)
  have dm: "?m * b + a mod b = a" by simp
  have rem: "0 \<le> a mod b" "a mod b < b" using b by simp_all
  have mle: "?m + 1 \<le> 2 ^ 53"
  proof -
    have "?m * 1 \<le> ?m * b" using m0 b by (intro mult_left_mono) simp_all
    then have "?m \<le> a" using dm rem(1) by linarith
    then show ?thesis using a(2) by simp
  qed
  have q0: "q \<noteq> 0" using qpos by simp
  from ulp_form [OF q0 qb] obtain k where u: "ulp q = inverse (2 ^ k)"
    and knorm: "- 1022 \<le> binade q \<longrightarrow> int k = 52 - binade q"
    and ksub: "binade q < - 1022 \<longrightarrow> k = 1074"
    by blast
  let ?P = "2 ^ k :: int"
  let ?M = "round_half_even (q * of_int ?P)"
  have nd: "nearest_double q = of_int ?M / of_int ?P"
    using qpos unfolding nearest_double_def u by (simp add: field_simps)
  have Ppos: "0 < ?P" by simp
  \<comment> \<open>the lower bound\<close>
  have "of_int (?m * ?P) \<le> q * of_int ?P"
    using fl of_int_floor_le [of q] by (simp add: mult_right_mono)
  then have "?m * ?P \<le> \<lfloor>q * of_int ?P\<rfloor>" by (simp only: le_floor_iff)
  then have lower: "?m * ?P \<le> ?M" using round_half_even_ge [of "q * of_int ?P"] by linarith
  \<comment> \<open>the upper bound\<close>
  have "q < of_int (?m + 1)" using fl by linarith
  then have "q * of_int ?P < of_int ((?m + 1) * ?P)" by (simp add: mult_strict_right_mono)
  then have flt: "\<lfloor>q * of_int ?P\<rfloor> < (?m + 1) * ?P" by (simp only: floor_less_iff)
  have upper: "?M < (?m + 1) * ?P"
  proof (rule ccontr)
    assume "\<not> ?M < (?m + 1) * ?P"
    then have Mge: "(?m + 1) * ?P \<le> ?M" by simp
    have Mle: "?M \<le> \<lfloor>q * of_int ?P\<rfloor> + 1" by (rule round_half_even_le)
    have fleq: "\<lfloor>q * of_int ?P\<rfloor> = (?m + 1) * ?P - 1" using Mge Mle flt by linarith
    then have "?M \<noteq> \<lfloor>q * of_int ?P\<rfloor>" using Mge by linarith
    then have "1 / 2 \<le> q * of_int ?P - of_int \<lfloor>q * of_int ?P\<rfloor>" by (rule round_half_even_up)
    then have half: "of_int ((?m + 1) * ?P) - 1 / 2 \<le> q * of_int ?P" unfolding fleq by simp
    \<comment> \<open>the denominator is at least \<open>2 * P\<close>\<close>
    have "(?m + 1) * b = ?m * b + b" by (simp add: algebra_simps)
    then have "a < (?m + 1) * b" using dm rem(2) by linarith
    then have "1 \<le> (?m + 1) * b - a" by simp
    then have "(of_int 1 :: rat) \<le> of_int ((?m + 1) * b - a)" by (simp only: of_int_le_iff)
    then have one: "(1::rat) \<le> of_int (?m + 1) * of_int b - q * of_int b" unfolding qa by simp
    have "of_int ?P \<le> (of_int (?m + 1) * of_int b - q * of_int b) * of_int ?P"
      using one Ppos by (simp add: mult_le_cancel_right1)
    also have "\<dots> = (of_int ((?m + 1) * ?P) - q * of_int ?P) * of_int b"
      by (simp add: algebra_simps)
    also have "\<dots> \<le> (1 / 2) * of_int b"
      using half b by (intro mult_right_mono) simp_all
    finally have bP: "2 * (of_int ?P :: rat) \<le> of_int b" by simp
    \<comment> \<open>the scaled quotient is at least \<open>2^52\<close>\<close>
    have big: "(2::rat) ^ 52 \<le> q * of_int ?P"
    proof (cases "- 1022 \<le> binade q")
      case True
      then have "int k = 52 - binade q" using knorm by simp
      then have "binade q = 52 - int k" by simp
      then have "(2::rat) powi (52 - int k) \<le> q"
        using binade_bounds [of q] qpos by simp
      then have "(2::rat) powi (52 - int k) * 2 ^ k \<le> q * 2 ^ k"
        by (intro mult_right_mono) simp_all
      moreover have "(2::rat) powi (52 - int k) * 2 ^ k = 2 ^ 52"
      proof -
        have "(2::rat) powi (52 - int k + int k) = 2 powi (52 - int k) * 2 powi (int k)"
          by (rule power_int_add) simp
        then have "(2::rat) powi 52 = 2 powi (52 - int k) * 2 ^ k"
          by (simp only: diff_add_cancel power_int_of_nat)
        then show ?thesis by simp
      qed
      ultimately show ?thesis by simp
    next
      case False
      then have "k = 1074" using ksub by simp
      then have "(2::rat) ^ 53 \<le> of_int ?P" by (simp add: power_increasing)
      moreover have "(of_int ?P :: rat) \<le> of_int ((?m + 1) * ?P)"
      proof -
        have "1 * ?P \<le> (?m + 1) * ?P" using m0 by (intro mult_right_mono) simp_all
        then have "?P \<le> (?m + 1) * ?P" by simp
        then show ?thesis by (simp only: of_int_le_iff)
      qed
      moreover have "(2::rat) ^ 52 \<le> 2 ^ 53 - 1 / 2" by simp
      ultimately show ?thesis using half by linarith
    qed
    have "(2::rat) ^ 53 = 2 * 2 ^ 52" by simp
    also have "\<dots> \<le> 2 * (q * of_int ?P)" using big by simp
    also have "\<dots> = q * (2 * of_int ?P)" by simp
    also have "\<dots> \<le> q * of_int b" using bP qpos by (simp add: mult_left_mono)
    also have "\<dots> = of_int a" by (rule qa)
    finally have "(of_int (2 ^ 53) :: rat) \<le> of_int a" by simp
    then have "2 ^ 53 \<le> a" by (simp only: of_int_le_iff)
    then show False using a(2) by simp
  qed
  have "?M = ?P * ?m + (?M - ?m * ?P)" by (simp add: algebra_simps)
  moreover have "0 \<le> ?M - ?m * ?P" using lower by simp
  moreover have "?M - ?m * ?P < ?P" using upper by (simp add: algebra_simps)
  ultimately have "?M div ?P = ?m" by (rule int_div_pos_eq)
  then have fl_nd: "\<lfloor>nearest_double q\<rfloor> = ?m" unfolding nd by (simp only: floor_divide_of_int_eq)
  have "0 \<le> ?m * ?P" using m0 by simp
  then have "0 \<le> ?M" using lower by linarith
  then have nonneg: "0 \<le> nearest_double q" unfolding nd by (simp add: zero_le_divide_iff)
  have "nearest_double q < of_int (\<lfloor>nearest_double q\<rfloor> + 1)" by linarith
  also have "\<dots> = of_int (?m + 1)" using fl_nd by simp
  also have "\<dots> \<le> of_int (2 ^ 53)" using mle by (simp only: of_int_le_iff)
  finally have "nearest_double q < 2 ^ 53" by simp
  with nonneg fl_nd show ?thesis by simp
qed

lemma nearest_double_sgn: "nearest_double q = sgn q * nearest_double \<bar>q\<bar>"
  by (cases "q = 0") (simp_all add: nearest_double_def ulp_def binade_abs)

lemma round_double_quotient:
  assumes "\<bar>a\<bar> < 2 ^ 53" and "b \<noteq> 0"
  shows "\<exists>r. round_double (of_int a / of_int b) = Finite r
              \<and> int_of_float (Finite r) = Inr (truncated_quotient a b)"
proof -
  let ?q = "of_int a / of_int b :: rat"
  let ?n = "nearest_double \<bar>?q\<bar>"
  have absq: "\<bar>?q\<bar> = of_int \<bar>a\<bar> / of_int \<bar>b\<bar>" by simp
  have core: "0 \<le> ?n \<and> ?n < 2 ^ 53 \<and> \<lfloor>?n\<rfloor> = \<bar>a\<bar> div \<bar>b\<bar>"
    unfolding absq using assms by (intro nearest_double_quotient) simp_all
  have nd: "nearest_double ?q = sgn ?q * ?n" by (rule nearest_double_sgn)
  have n0: "0 \<le> ?n" and n53: "?n < 2 ^ 53" using core by blast+
  have "\<bar>sgn ?q\<bar> \<le> 1" by (simp only: abs_sgn_eq) simp
  then have "\<bar>sgn ?q\<bar> * ?n \<le> 1 * ?n" using n0 by (rule mult_right_mono)
  moreover have "\<bar>sgn ?q * ?n\<bar> = \<bar>sgn ?q\<bar> * ?n" using n0 by (simp only: abs_mult abs_of_nonneg)
  ultimately have "\<bar>sgn ?q * ?n\<bar> < 2 ^ 53" using n53 by linarith
  then have "\<bar>nearest_double ?q\<bar> < 2 powi 53" unfolding nd by simp
  then have "binade (nearest_double ?q) < 53" by (rule binade_less) simp
  then have rd: "round_double ?q = Finite (sgn ?q * ?n)" using nd by (simp add: round_double_def)
  have "int_of_float (Finite (sgn ?q * ?n)) = Inr (truncated_quotient a b)"
  proof -
    consider "0 < ?q" | "?q = 0" | "?q < 0" by linarith
    then show ?thesis
    proof cases
      case 1
      then have "sgn ?q = 1" by (rule sgn_pos)
      moreover from 1 have "(0 < a \<and> 0 < b) \<or> (a < 0 \<and> b < 0)"
        by (simp add: zero_less_divide_iff)
      then have "sgn a * sgn b = 1" by auto
      ultimately show ?thesis using core by (simp add: truncated_quotient_def)
    next
      case 2
      then have "a = 0" using assms(2) by simp
      then show ?thesis by (simp add: truncated_quotient_def)
    next
      case 3
      then have s: "sgn ?q = - 1" by (rule sgn_neg)
      from 3 have "(0 < a \<and> b < 0) \<or> (a < 0 \<and> 0 < b)"
        by (simp add: divide_less_0_iff)
      then have ab: "sgn a * sgn b = - 1" by auto
      show ?thesis
      proof (cases "?n = 0")
        case True
        then have "\<bar>a\<bar> div \<bar>b\<bar> = 0" using core by simp
        then show ?thesis using True by (simp add: truncated_quotient_def)
      next
        case False
        then have "0 < ?n" using core by simp
        then show ?thesis using s ab core by (simp add: truncated_quotient_def)
      qed
    qed
  qed
  then show ?thesis using rd by blast
qed

lemma binade_ge:
  assumes "r \<noteq> 0" and "2 powi k \<le> \<bar>r\<bar>"
  shows "k \<le> binade r"
proof (rule ccontr)
  assume "\<not> k \<le> binade r"
  then have "binade r + 1 \<le> k" by simp
  then have "(2::rat) powi (binade r + 1) \<le> 2 powi k" by (simp add: power_int_increasing)
  moreover have "\<bar>r\<bar> < 2 powi (binade r + 1)" using binade_bounds [OF assms(1)] by simp
  ultimately show False using assms(2) by simp
qed

text \<open>An integer from \<open>2^1024\<close> on is too large for a float.\<close>

lemma float_of_int_overflow:
  assumes "2 ^ 1024 \<le> x"
  shows "float_of_int x = Inl OverflowError"
proof -
  let ?q = "of_int x :: rat"
  let ?e = "binade ?q"
  have "(of_int (2 ^ 1024) :: rat) \<le> of_int x" using assms by (simp only: of_int_le_iff)
  then have big: "(2::rat) powi 1024 \<le> ?q" by simp
  have "(0::rat) < 2 powi 1024" by simp
  then have qpos: "0 < ?q" using big by linarith
  then have q0: "?q \<noteq> 0" by simp
  have aq: "\<bar>?q\<bar> = ?q" using qpos by simp
  have e: "1024 \<le> ?e" using q0 big aq by (intro binade_ge) simp_all
  have lo: "2 powi ?e \<le> ?q" using binade_bounds [OF q0] aq by simp
  have u: "ulp ?q = 2 powi (?e - 52)" using e by (simp add: ulp_def max_def)
  have upos: "0 < ulp ?q" unfolding u by simp
  have "(2::rat) powi ?e = 2 powi 52 * 2 powi (?e - 52)"
  proof -
    have "(2::rat) powi (52 + (?e - 52)) = 2 powi 52 * 2 powi (?e - 52)"
      by (rule power_int_add) simp
    then show ?thesis by simp
  qed
  then have "2 powi 52 * ulp ?q \<le> ?q" using lo u by simp
  then have "(2::rat) powi 52 \<le> ?q / ulp ?q" using upos by (simp add: pos_le_divide_eq)
  then have "(of_int (2 ^ 52) :: rat) \<le> \<bar>?q\<bar> / ulp ?q" using aq by simp
  then have "2 ^ 52 \<le> \<lfloor>\<bar>?q\<bar> / ulp ?q\<rfloor>" by (simp only: le_floor_iff)
  then have M: "2 ^ 52 \<le> round_half_even (\<bar>?q\<bar> / ulp ?q)"
    using round_half_even_ge [of "\<bar>?q\<bar> / ulp ?q"] by linarith
  let ?M = "round_half_even (\<bar>?q\<bar> / ulp ?q)"
  have nd: "nearest_double ?q = of_int ?M * ulp ?q"
    using qpos by (simp add: nearest_double_def)
  have "(of_int (2 ^ 52) :: rat) \<le> of_int ?M" using M by (simp only: of_int_le_iff)
  then have "of_int (2 ^ 52) * ulp ?q \<le> of_int ?M * ulp ?q"
    using upos by (intro mult_right_mono) simp_all
  then have "2 powi 52 * 2 powi (?e - 52) \<le> nearest_double ?q" unfolding nd u by simp
  then have "2 powi ?e \<le> nearest_double ?q"
    using \<open>(2::rat) powi ?e = 2 powi 52 * 2 powi (?e - 52)\<close> by simp
  moreover have "(2::rat) powi 1024 \<le> 2 powi ?e" using e by (intro power_int_increasing) simp_all
  ultimately have r: "(2::rat) powi 1024 \<le> nearest_double ?q" by linarith
  then have rpos: "0 < nearest_double ?q" using \<open>(0::rat) < 2 powi 1024\<close> by linarith
  then have "1024 \<le> binade (nearest_double ?q)" using r by (intro binade_ge) simp_all
  then show ?thesis using qpos by (simp add: float_of_int_def round_double_def)
qed

subsection \<open>The arithmetic of the rate reducer in the exact range\<close>

lemma emit_value_int_exact:
  assumes "\<bar>s\<bar> < 2 ^ 53" and "r \<noteq> 0"
  shows "emit_value (Int_val s) r = Inr (truncated_quotient s r)"
proof -
  from round_double_quotient [OF assms] obtain q
    where "round_double (of_int s / of_int r) = Finite q"
      and "int_of_float (Finite q) = Inr (truncated_quotient s r)"
    by blast
  then show ?thesis
    using assms(2) by (simp add: emit_value_def number_truediv_int_def int_truediv_def)
qed

lemma first_emission_exact:
  assumes "\<bar>x\<bar> < 2 ^ 53" and "\<bar>r\<bar> < 2 ^ 53" and "r \<noteq> 0"
  shows "(case number_add_int (Float_val (Finite 0)) x of Inl e \<Rightarrow> Inl e
          | Inr s \<Rightarrow> emit_value s r) = Inr (truncated_quotient x r)"
proof -
  have x: "round_double (of_int x) = Finite (of_int x)"
    using assms(1) by (rule round_double_of_int)
  have r: "round_double (of_int r) = Finite (of_int r)"
    using assms(2) by (rule round_double_of_int)
  have add: "number_add_int (Float_val (Finite 0)) x = Inr (Float_val (Finite (of_int x)))"
    using x by (simp add: number_add_int_def float_of_int_def)
  from round_double_quotient [OF assms(1,3)] obtain q
    where "round_double (of_int x / of_int r) = Finite q"
      and "int_of_float (Finite q) = Inr (truncated_quotient x r)"
    by blast
  then have "emit_value (Float_val (Finite (of_int x))) r = Inr (truncated_quotient x r)"
    using r assms(3) by (simp add: emit_value_def number_truediv_int_def float_of_int_def)
  then show ?thesis using add by simp
qed

lemma window_first: "xs \<noteq> [] \<Longrightarrow> r \<noteq> 0 \<Longrightarrow> window xs r 0 = [xs ! 0]"
  by (cases xs) (simp_all add: window_def)

lemma emission_exact:
  assumes "r \<noteq> 0" and "\<bar>r\<bar> < 2 ^ 53" and "i < length xs"
    and "\<bar>sum_list (window xs r i)\<bar> < 2 ^ 53"
  shows "emission xs r i = Inr (truncated_quotient (sum_list (window xs r i)) r)"
proof (cases "i = 0")
  case True
  have "xs \<noteq> []" using assms(3) by auto
  then have w: "sum_list (window xs r 0) = xs ! 0" using assms(1) by (simp add: window_first)
  then have "\<bar>xs ! 0\<bar> < 2 ^ 53" using assms(4) True by simp
  then show ?thesis
    using True w first_emission_exact [OF _ assms(2,1), of "xs ! 0"]
    by (simp add: emission_def accumulator_def)
next
  case False
  then show ?thesis
    using emit_value_int_exact [OF assms(4,1)] by (simp add: emission_def accumulator_def)
qed

subsection \<open>The loop of the rate reducer in closed form\<close>

lemma collect_Inr_map: "collect (map (\<lambda>i. Inr (f i)) is) = Inr (map f is)"
  by (induction "is") simp_all

lemma collect_nth:
  "collect rs = Inr vs \<Longrightarrow> length vs = length rs \<and> (\<forall>k<length rs. rs ! k = Inr (vs ! k))"
proof (induction rs arbitrary: vs)
  case Nil
  then show ?case by simp
next
  case (Cons r rs)
  from Cons.prems obtain v ws where r: "r = Inr v" and ws: "collect rs = Inr ws"
    and vs: "vs = v # ws"
    by (auto split: sum.splits)
  from Cons.IH [OF ws] have "length ws = length rs" and "\<forall>k<length rs. rs ! k = Inr (ws ! k)"
    by simp_all
  then show ?case using r vs by (auto simp: nth_Cons split: nat.splits)
qed

lemma window_sum_at_emission:
  assumes "r \<noteq> 0" and "nat \<bar>r\<bar> dvd length ps"
  shows "sum_list (window (ps @ x # rest) r (length ps))
           = sum_list (drop (length ps - (length ps - 1) mod nat \<bar>r\<bar>) ps) + x"
proof -
  have R: "0 < nat \<bar>r\<bar>" using assms(1) by simp
  have start: "length ps - (length ps - 1) mod nat \<bar>r\<bar> = Suc (length ps) - nat \<bar>r\<bar>"
    using R assms(2) by (rule window_start)
  have "Suc (length ps) - nat \<bar>r\<bar> \<le> length ps" using R by simp
  then show ?thesis unfolding start by (simp add: window_def)
qed

text \<open>
  The invariant of the loop after the first sample: when the samples \<open>ps\<close> have been
  consumed, the accumulator is the integer sum of those after the last emission; the
  rest of the run appends the emissions at the indices that remain.
\<close>

lemma reduce_loop_int:
  assumes "r \<noteq> 0" and "ps \<noteq> []"
  shows "reduce_loop xs r (length ps)
           (Int_val (sum_list (drop (length ps - (length ps - 1) mod nat \<bar>r\<bar>) ps))) out
         = (case collect (map (emission (ps @ xs) r)
                            (filter (\<lambda>i. int i mod r = 0)
                               [length ps..<length ps + length xs])) of
              Inl e \<Rightarrow> Inl e
            | Inr vs \<Rightarrow> Inr (out @ vs))"
  using assms(2)
proof (induction xs arbitrary: ps out)
  case Nil
  show ?case by simp
next
  case (Cons x rest)
  let ?n = "length ps" and ?R = "nat \<bar>r\<bar>"
  let ?acc = "sum_list (drop (?n - (?n - 1) mod ?R) ps)"
  let ?later = "collect (map (emission (ps @ x # rest) r)
                   (filter (\<lambda>i. int i mod r = 0) [Suc ?n..<Suc ?n + length rest]))"
  have n0: "?n \<noteq> 0" using Cons.prems by simp
  have len: "?n + length (x # rest) = Suc ?n + length rest" by simp
  have "?n < Suc ?n + length rest" by simp
  then have "[?n..<Suc ?n + length rest] = ?n # [Suc ?n..<Suc ?n + length rest]"
    by (rule upt_conv_Cons)
  then have upt: "[?n..<?n + length (x # rest)] = ?n # [Suc ?n..<Suc ?n + length rest]"
    by (simp only: len)
  have add: "number_add_int (Int_val ?acc) x = Inr (Int_val (?acc + x))"
    by (simp add: number_add_int_def)
  have IH: "reduce_loop rest r (Suc ?n)
              (Int_val (sum_list (drop (Suc ?n - ?n mod ?R) (ps @ [x])))) out'
            = (case ?later of Inl e \<Rightarrow> Inl e | Inr vs \<Rightarrow> Inr (out' @ vs))" for out'
    using Cons.IH [of "ps @ [x]" out'] by simp
  show ?case
  proof (cases "?R dvd ?n")
    case True
    then have emit: "int ?n mod r = 0" using assms(1) by (simp add: emit_cond_dvd)
    have acc0: "sum_list (drop (Suc ?n - ?n mod ?R) (ps @ [x])) = 0"
      using True by (simp add: mod_eq_0_iff_dvd)
    have "sum_list (window (ps @ x # rest) r ?n) = ?acc + x"
      using assms(1) True by (rule window_sum_at_emission)
    then have em: "emission (ps @ x # rest) r ?n = emit_value (Int_val (?acc + x)) r"
      using n0 by (simp add: emission_def accumulator_def)
    show ?thesis
    proof (cases "emit_value (Int_val (?acc + x)) r")
      case (Inl e)
      then show ?thesis
        unfolding reduce_loop.simps add upt using assms(1) emit em by simp
    next
      case (Inr v)
      then show ?thesis
        unfolding reduce_loop.simps add upt
        using assms(1) emit em IH [of "out @ [v]", unfolded acc0]
        by (simp split: sum.splits)
    qed
  next
    case False
    then have emit: "int ?n mod r \<noteq> 0" using assms(1) by (simp add: emit_cond_dvd)
    have m: "?n mod ?R = Suc ((?n - 1) mod ?R)" using False by (rule mod_of_not_dvd)
    have "?n mod ?R \<le> ?n" by (rule mod_less_eq_dividend)
    then have le: "Suc ?n - ?n mod ?R = ?n - (?n - 1) mod ?R" "?n - (?n - 1) mod ?R \<le> ?n"
      using m by simp_all
    have acc: "sum_list (drop (Suc ?n - ?n mod ?R) (ps @ [x])) = ?acc + x"
      using le by simp
    show ?thesis
      unfolding reduce_loop.simps add upt
      using assms(1) emit IH [of out, unfolded acc] by simp
  qed
qed

lemma reduce_samplerate_closed:
  assumes "r \<noteq> 0"
  shows "reduce_samplerate xs r = collect (map (emission xs r) (emit_indices (length xs) r))"
proof (cases xs)
  case Nil
  then show ?thesis by (simp add: reduce_samplerate_def emit_indices_def)
next
  case (Cons x rest)
  let ?later = "collect (map (emission (x # rest) r)
                   (filter (\<lambda>i. int i mod r = 0) [Suc 0..<Suc 0 + length rest]))"
  have len: "length (x # rest) = Suc 0 + length rest" by simp
  have "0 < Suc 0 + length rest" by simp
  then have "[0..<Suc 0 + length rest] = 0 # [Suc 0..<Suc 0 + length rest]"
    by (rule upt_conv_Cons)
  then have idx: "emit_indices (length (x # rest)) r
               = 0 # filter (\<lambda>i. int i mod r = 0) [Suc 0..<Suc 0 + length rest]"
    unfolding emit_indices_def len by simp
  have em: "emission (x # rest) r 0
              = (case number_add_int (Float_val (Finite 0)) x of Inl e \<Rightarrow> Inl e
                 | Inr s \<Rightarrow> emit_value s r)"
    by (simp add: emission_def accumulator_def)
  have later: "reduce_loop rest r (Suc 0) (Int_val 0) [v]
                 = (case ?later of Inl e \<Rightarrow> Inl e | Inr vs \<Rightarrow> Inr (v # vs))" for v
  proof -
    have l: "length [x] = Suc 0" by simp
    have a: "sum_list (drop (Suc 0 - (Suc 0 - 1) mod nat \<bar>r\<bar>) [x]) = 0" by simp
    have "[x] \<noteq> []" by simp
    from reduce_loop_int [OF assms this, where xs = rest and out = "[v]"]
    show ?thesis unfolding l a by (simp only: append_Cons append_Nil)
  qed
  show ?thesis
    unfolding Cons idx reduce_samplerate_def reduce_loop.simps
    using assms em later by (simp split: sum.splits)
qed

lemma reduce_samplerate_exact:
  assumes "r \<noteq> 0" and "exact_range xs r"
  shows "reduce_samplerate xs r
           = Inr (map (\<lambda>i. truncated_quotient (sum_list (window xs r i)) r)
                    (emit_indices (length xs) r))"
proof -
  have "emission xs r i = Inr (truncated_quotient (sum_list (window xs r i)) r)"
    if "i \<in> set (emit_indices (length xs) r)" for i
  proof -
    have "i < length xs" using that by (rule emit_indices_less)
    moreover have "\<bar>sum_list (window xs r i)\<bar> < 2 ^ 53"
      using assms(2) that by (simp add: exact_range_def list_all_iff)
    moreover have "\<bar>r\<bar> < 2 ^ 53" using assms(2) by (simp add: exact_range_def)
    ultimately show ?thesis using assms(1) by (intro emission_exact)
  qed
  then have "map (emission xs r) (emit_indices (length xs) r)
               = map (\<lambda>i. Inr (truncated_quotient (sum_list (window xs r i)) r))
                   (emit_indices (length xs) r)"
    by (intro map_cong) simp_all
  then show ?thesis by (simp only: reduce_samplerate_closed [OF assms(1)] collect_Inr_map)
qed

text \<open>The number of values the rate reducer returns.\<close>

lemma reduce_samplerate_length:
  assumes "r \<noteq> 0" and "reduce_samplerate xs r = Inr ys"
  shows "length ys = (length xs + nat \<bar>r\<bar> - 1) div nat \<bar>r\<bar>"
proof -
  have "collect (map (emission xs r) (emit_indices (length xs) r)) = Inr ys"
    using assms(2) by (simp only: reduce_samplerate_closed [OF assms(1)])
  then have "length ys = length (emit_indices (length xs) r)"
    using collect_nth by fastforce
  then show ?thesis by (simp only: length_emit_indices [OF assms(1)])
qed

text \<open>
  From \<open>2^53\<close> on the first sample is rounded when it is added to the float \<open>0.0\<close>,
  and a quotient is rounded before it is truncated: \<open>(2^53 + 7) / 4\<close> becomes
  \<open>2^51 + 2\<close>, where the exact quotient truncates to \<open>2^51 + 1\<close>.
\<close>

lemma reduce_samplerate_rounds:
  "reduce_samplerate [9007199254740993] 1 = Inr [9007199254740992]
   \<and> reduce_samplerate [0, 9007199254740999, 0, 0, 0] 4 = Inr [0, 2251799813685250]
   \<and> truncated_quotient 9007199254740999 4 = 2251799813685249"
  by code_simp

text \<open>A first sample from \<open>2^1024\<close> on cannot be added to the float \<open>0.0\<close>.\<close>

lemma reduce_samplerate_first_sample_overflow:
  assumes "2 ^ 1024 \<le> x"
  shows "reduce_samplerate (x # rest) ratio = Inl OverflowError"
  using float_of_int_overflow [OF assms]
  by (simp add: reduce_samplerate_def number_add_int_def)


subsection \<open>The reader\<close>

lemma read_loop_no_marker:
  "\<forall>line\<in>set f. \<not> str_startswith line sw \<Longrightarrow> read_loop f sw False out = Inr out"
  by (induction f) simp_all

lemma str_strip_blank:
  assumes "list_all is_space line"
  shows "str_strip line = []"
proof -
  have "\<forall>c\<in>set line. is_space c" using assms by (simp add: list_all_iff)
  then have "dropWhile is_space line = []" by (simp only: dropWhile_eq_Nil_conv)
  then show ?thesis by (simp only: str_strip_def rev.simps dropWhile.simps)
qed

lemma process_line_blank: "list_all is_space line \<Longrightarrow> process_line line = Inl IndexError"
  by (simp add: process_line_def str_strip_blank)

lemma blank_not_terminator:
  assumes "list_all is_space line"
  shows "\<not> str_startswith line ''};''"
proof (cases line)
  case Nil
  then show ?thesis by simp
next
  case (Cons c cs)
  then have "is_space c" using assms by simp
  then have "c \<noteq> CHR ''}''" by (auto simp: is_space_def)
  then show ?thesis using Cons by simp
qed

text \<open>The check before \<open>parser.error\<close> is false for every namespace.\<close>

lemma usage_check_never_fires: "\<not> (''wb'' \<in> set (vars_keys a) \<and> ''sr'' \<notin> set (vars_keys a))"
  by (simp add: vars_keys_def)

section \<open>The claims\<close>

subsection \<open>Amplitude re-encoder\<close>

text \<open>
  C1. For every \<open>max_value \<ge> 0\<close> and every sample in the range from \<open>0\<close> to
  \<open>2 * max_value + 1\<close>, the remap of \<open>Converter.twos_complement\<close> applied twice gives
  the sample back, for each element and so for the whole sequence, as the driver needs
  when it applies the remap again before the write back.
\<close>

theorem twos_complement_involution:
  assumes "0 \<le> max_value"
    and "\<forall>v\<in>set sample_data. 0 \<le> v \<and> v \<le> 2 * max_value + 1"
  shows "(\<forall>v\<in>set sample_data.
            twos_complement_value (twos_complement_value v max_value) max_value = v)
         \<and> twos_complement (twos_complement sample_data max_value) max_value = sample_data"
  using assms(2) by (simp add: twos_complement_twice twos_complement_value_twice)

theorem twos_complement_involution_witness:
  "(0::int) \<le> 127
   \<and> list_all (\<lambda>v. 0 \<le> v \<and> v \<le> 2 * 127 + 1) [0, 72, 127, 128, 200, 255 :: int]
   \<and> twos_complement (twos_complement [0, 72, 127, 128, 200, 255] 127) 127
       = [0, 72, 127, 128, 200, 255]"
  using twos_complement_involution [of 127 "[0, 72, 127, 128, 200, 255]"] by simp

text \<open>
  C4, as the claim states it, fails below \<open>- 1\<close>: the sample \<open>- 5\<close> is not above
  \<open>max_value = 127\<close> and is mapped to \<open>\<bar>~(-5)\<bar> + 127 = 131\<close>, not to \<open>- 5 + 127 + 1\<close>.
\<close>

theorem twos_complement_negative_counterexample:
  "(- 5 :: int) \<le> 127 \<and> twos_complement [- 5] 127 = [131] \<and> (131 :: int) \<noteq> - 5 + 127 + 1"
  by (simp add: twos_complement_def twos_complement_value_def not_int_def)

text \<open>
  C4, amended. \<open>Converter.twos_complement\<close> returns a sequence for every sequence of
  integers. It maps \<open>v\<close> to \<open>v - max_value - 1\<close> when \<open>v > max_value\<close>; when
  \<open>v \<le> max_value\<close> it maps \<open>v\<close> to \<open>v + max_value + 1\<close> if \<open>v \<ge> - 1\<close> and to
  \<open>max_value - v - 1\<close> if \<open>v < - 1\<close>.
\<close>

theorem twos_complement_algebraic:
  "twos_complement sample_data max_value =
     map (\<lambda>v. if v > max_value then v - max_value - 1
              else if - 1 \<le> v then v + max_value + 1
              else max_value - v - 1) sample_data"
  by (simp add: twos_complement_map twos_complement_value_cases)

subsection \<open>Rate reducer\<close>

text \<open>
  C2. For a ratio other than \<open>0\<close>, \<open>Converter.reduce_samplerate\<close> passes one emission
  for each input index \<open>i\<close> with \<open>i % ratio == 0\<close>, in increasing order of \<open>i\<close>, and no
  other; the emission is \<^verbatim>\<open>int(sample_sum / ratio)\<close> for the accumulator at that index,
  which holds what was added since the emission before. In the range where the float
  arithmetic is exact, every emission is the sum of its window divided by the ratio and
  truncated toward zero. For the input \<open>[1, 2, 3, 4, 5]\<close> and the ratio \<open>2\<close> the result is
  \<open>[0, 2, 4]\<close>.
\<close>

theorem reduce_samplerate_emissions:
  "(ratio \<noteq> 0 \<longrightarrow>
      reduce_samplerate sample_data ratio
        = collect (map (emission sample_data ratio) (emit_indices (length sample_data) ratio)))
   \<and> (ratio \<noteq> 0 \<and> exact_range sample_data ratio \<longrightarrow>
        reduce_samplerate sample_data ratio
          = Inr (map (\<lambda>i. truncated_quotient (sum_list (window sample_data ratio i)) ratio)
                   (emit_indices (length sample_data) ratio)))
   \<and> reduce_samplerate [1, 2, 3, 4, 5] 2 = Inr [0, 2, 4]"
proof (intro conjI impI)
  assume "ratio \<noteq> 0"
  then show "reduce_samplerate sample_data ratio
        = collect (map (emission sample_data ratio) (emit_indices (length sample_data) ratio))"
    by (rule reduce_samplerate_closed)
next
  assume "ratio \<noteq> 0 \<and> exact_range sample_data ratio"
  then show "reduce_samplerate sample_data ratio
          = Inr (map (\<lambda>i. truncated_quotient (sum_list (window sample_data ratio i)) ratio)
                   (emit_indices (length sample_data) ratio))"
    by (simp add: reduce_samplerate_exact)
next
  show "reduce_samplerate [1, 2, 3, 4, 5] 2 = Inr [0, 2, 4]"
    by code_simp
qed

theorem reduce_samplerate_emissions_witness:
  "(3 :: int) \<noteq> 0 \<and> exact_range [7, 1, 2, 3, - 4, - 5, - 6, 9] 3
   \<and> emit_indices (length [7, 1, 2, 3, - 4, - 5, - 6, 9 :: int]) 3 = [0, 3, 6]
   \<and> map (emission [7, 1, 2, 3, - 4, - 5, - 6, 9] 3) [0, 3, 6] = [Inr 2, Inr 2, Inr (- 5)]
   \<and> map (\<lambda>i. truncated_quotient (sum_list (window [7, 1, 2, 3, - 4, - 5, - 6, 9] 3 i)) 3)
         [0, 3, 6] = [2, 2, - 5]
   \<and> reduce_samplerate [7, 1, 2, 3, - 4, - 5, - 6, 9] 3 = Inr [2, 2, - 5]"
proof -
  have range: "exact_range [7, 1, 2, 3, - 4, - 5, - 6, 9] 3"
    by code_simp
  have idx: "emit_indices (length [7, 1, 2, 3, - 4, - 5, - 6, 9 :: int]) 3 = [0, 3, 6]"
    by code_simp
  have float: "map (emission [7, 1, 2, 3, - 4, - 5, - 6, 9] 3) [0, 3, 6]
                 = [Inr 2, Inr 2, Inr (- 5)]"
    by code_simp
  have exact:
    "map (\<lambda>i. truncated_quotient (sum_list (window [7, 1, 2, 3, - 4, - 5, - 6, 9] 3 i)) 3)
       [0, 3, 6] = [2, 2, - 5]"
    by code_simp
  have nz: "(3 :: int) \<noteq> 0" by simp
  from reduce_samplerate_emissions [of 3 "[7, 1, 2, 3, - 4, - 5, - 6, 9]"] nz range
  have "reduce_samplerate [7, 1, 2, 3, - 4, - 5, - 6, 9] 3
          = Inr (map (\<lambda>i. truncated_quotient
                             (sum_list (window [7, 1, 2, 3, - 4, - 5, - 6, 9] 3 i)) 3)
                   (emit_indices (length [7, 1, 2, 3, - 4, - 5, - 6, 9 :: int]) 3))"
    by blast
  then have "reduce_samplerate [7, 1, 2, 3, - 4, - 5, - 6, 9] 3 = Inr [2, 2, - 5]"
    by (simp only: idx exact)
  then show ?thesis
    by (intro conjI nz range idx float exact)
qed

text \<open>
  C3 says that the output has length \<open>floor(n / r)\<close>. For the five samples
  \<open>[1, 2, 3, 4, 5]\<close> and the ratio \<open>2\<close> the code returns three values, and
  \<open>floor(5 / 2) = 2\<close>.
\<close>

theorem reduce_samplerate_length_five_by_two:
  "reduce_samplerate [1, 2, 3, 4, 5] 2 = Inr [0, 2, 4]
   \<and> length [0, 2, 4 :: int] = 3 \<and> length [1, 2, 3, 4, 5 :: int] div 2 = 2"
  by code_simp

text \<open>
  C8, as the claim states it, fails for a negative ratio: with the ratio \<open>- 2\<close> the
  code raises nothing and returns \<open>[0, - 2]\<close> for \<open>[1, 2, 3]\<close>.
\<close>

theorem reduce_samplerate_negative_ratio_counterexample:
  "(- 2 :: int) \<le> 0 \<and> reduce_samplerate [1, 2, 3] (- 2) = Inr [0, - 2]"
  by code_simp

text \<open>
  C8, amended. \<open>Converter.reduce_samplerate\<close> does not check the ratio. With the ratio
  \<open>0\<close> and at least one sample it fails before any output: with \<open>OverflowError\<close> when
  the first sample is too large for a float, as it is from \<open>2^1024\<close> on, and with
  \<open>ZeroDivisionError\<close> otherwise, so for every first sample below \<open>2^53\<close> in
  magnitude. With no sample it returns the
  empty sequence for every ratio. A negative ratio is treated as every ratio other than
  \<open>0\<close>: one emission for each index divisible by the ratio, and in the range where the
  float arithmetic is exact the code raises nothing and returns the truncated quotients.
\<close>

theorem reduce_samplerate_nonpositive_ratio:
  "(sample_data \<noteq> [] \<longrightarrow>
      reduce_samplerate sample_data 0
        = Inl (if float_of_int (hd sample_data) = Inl OverflowError then OverflowError
               else ZeroDivisionError))
   \<and> (sample_data \<noteq> [] \<and> \<bar>hd sample_data\<bar> < 2 ^ 53 \<longrightarrow>
        reduce_samplerate sample_data 0 = Inl ZeroDivisionError)
   \<and> (sample_data \<noteq> [] \<and> 2 ^ 1024 \<le> hd sample_data \<longrightarrow>
        reduce_samplerate sample_data 0 = Inl OverflowError)
   \<and> reduce_samplerate [] ratio = Inr []
   \<and> (ratio < 0 \<longrightarrow>
        reduce_samplerate sample_data ratio
          = collect (map (emission sample_data ratio)
                       (emit_indices (length sample_data) ratio)))
   \<and> (ratio < 0 \<and> exact_range sample_data ratio \<longrightarrow>
        reduce_samplerate sample_data ratio
          = Inr (map (\<lambda>i. truncated_quotient (sum_list (window sample_data ratio i)) ratio)
                   (emit_indices (length sample_data) ratio)))"
proof (intro conjI impI)
  assume "sample_data \<noteq> []"
  then obtain x rest where xs: "sample_data = x # rest" by (cases sample_data) auto
  show "reduce_samplerate sample_data 0
        = Inl (if float_of_int (hd sample_data) = Inl OverflowError then OverflowError
               else ZeroDivisionError)"
    unfolding xs
    by (simp add: reduce_samplerate_def number_add_int_def float_of_int_def
          split: py_float.splits)
next
  assume "sample_data \<noteq> [] \<and> \<bar>hd sample_data\<bar> < 2 ^ 53"
  then obtain x rest where xs: "sample_data = x # rest" and x: "\<bar>x\<bar> < 2 ^ 53"
    by (cases sample_data) auto
  have "float_of_int x = Inr (Finite (of_int x))"
    using x by (simp add: float_of_int_def round_double_of_int)
  then show "reduce_samplerate sample_data 0 = Inl ZeroDivisionError"
    unfolding xs by (simp add: reduce_samplerate_def number_add_int_def)
next
  assume "sample_data \<noteq> [] \<and> 2 ^ 1024 \<le> hd sample_data"
  then obtain x rest where xs: "sample_data = x # rest" and x: "2 ^ 1024 \<le> x"
    by (cases sample_data) auto
  show "reduce_samplerate sample_data 0 = Inl OverflowError"
    unfolding xs using x by (rule reduce_samplerate_first_sample_overflow)
next
  show "reduce_samplerate [] ratio = Inr []"
    by (simp add: reduce_samplerate_def)
next
  assume "ratio < 0"
  then have "ratio \<noteq> 0" by simp
  then show "reduce_samplerate sample_data ratio
          = collect (map (emission sample_data ratio)
                       (emit_indices (length sample_data) ratio))"
    by (rule reduce_samplerate_closed)
next
  assume "ratio < 0 \<and> exact_range sample_data ratio"
  then have "ratio \<noteq> 0" and "exact_range sample_data ratio" by simp_all
  then show "reduce_samplerate sample_data ratio
          = Inr (map (\<lambda>i. truncated_quotient (sum_list (window sample_data ratio i)) ratio)
                   (emit_indices (length sample_data) ratio))"
    by (rule reduce_samplerate_exact)
qed

theorem reduce_samplerate_nonpositive_ratio_witness:
  "[1, 2, 3 :: int] \<noteq> [] \<and> \<bar>hd [1, 2, 3 :: int]\<bar> < 2 ^ 53
   \<and> reduce_samplerate [1, 2, 3] 0 = Inl ZeroDivisionError
   \<and> [2 ^ 1024, 2, 3 :: int] \<noteq> [] \<and> (2 :: int) ^ 1024 \<le> hd [2 ^ 1024, 2, 3]
   \<and> reduce_samplerate [2 ^ 1024, 2, 3] 0 = Inl OverflowError
   \<and> (- 2 :: int) < 0 \<and> exact_range [1, 2, 3] (- 2)
   \<and> map (\<lambda>i. truncated_quotient (sum_list (window [1, 2, 3] (- 2) i)) (- 2))
         (emit_indices (length [1, 2, 3 :: int]) (- 2)) = [0, - 2]
   \<and> reduce_samplerate [1, 2, 3] (- 2) = Inr [0, - 2]"
proof -
  have range: "exact_range [1, 2, 3] (- 2)"
    by code_simp
  have exact:
    "map (\<lambda>i. truncated_quotient (sum_list (window [1, 2, 3] (- 2) i)) (- 2))
       (emit_indices (length [1, 2, 3 :: int]) (- 2)) = [0, - 2]"
    by code_simp
  note claim = reduce_samplerate_nonpositive_ratio [of "[1, 2, 3]" "- 2"]
  have ne: "[1, 2, 3 :: int] \<noteq> []" and small: "\<bar>hd [1, 2, 3 :: int]\<bar> < 2 ^ 53"
    and neg: "(- 2 :: int) < 0"
    by simp_all
  from claim ne small have zero: "reduce_samplerate [1, 2, 3] 0 = Inl ZeroDivisionError"
    by blast
  have ne': "[2 ^ 1024, 2, 3 :: int] \<noteq> []" and large: "(2 :: int) ^ 1024 \<le> hd [2 ^ 1024, 2, 3]"
    by (simp_all only: list.sel order_refl list.distinct not_False_eq_True)
  from reduce_samplerate_nonpositive_ratio [of "[2 ^ 1024, 2, 3]" 0] ne' large
  have over: "reduce_samplerate [2 ^ 1024, 2, 3] 0 = Inl OverflowError"
    by blast
  from claim neg range
  have "reduce_samplerate [1, 2, 3] (- 2)
          = Inr (map (\<lambda>i. truncated_quotient (sum_list (window [1, 2, 3] (- 2) i)) (- 2))
                   (emit_indices (length [1, 2, 3 :: int]) (- 2)))"
    by blast
  then have "reduce_samplerate [1, 2, 3] (- 2) = Inr [0, - 2]"
    by (simp only: exact)
  then show ?thesis
    by (intro conjI ne small zero ne' large over neg range exact)
qed

subsection \<open>Order of the samples\<close>

text \<open>
  C9. \<open>Converter.twos_complement\<close> returns a sequence of the length of its input whose
  element at \<open>i\<close> is the remap of the input element at \<open>i\<close>. For a ratio other than
  \<open>0\<close>, when \<open>Converter.reduce_samplerate\<close> returns a sequence, its element at \<open>k\<close> is
  the emission of the block that ends at the input index \<open>k * \<bar>ratio\<bar>\<close>: the block results
  come in the order of the blocks. In the range where the float arithmetic is exact it
  does return a sequence, whose element at \<open>k\<close> is the truncated quotient of the sum of
  that block.
\<close>

theorem stages_keep_order:
  "length (twos_complement sample_data max_value) = length sample_data
   \<and> (\<forall>i<length sample_data.
         twos_complement sample_data max_value ! i
           = twos_complement_value (sample_data ! i) max_value)
   \<and> (ratio \<noteq> 0 \<longrightarrow>
        (\<forall>out. reduce_samplerate sample_data ratio = Inr out \<longrightarrow>
           (\<forall>k<length out. emission sample_data ratio (k * nat \<bar>ratio\<bar>) = Inr (out ! k))))
   \<and> (ratio \<noteq> 0 \<and> exact_range sample_data ratio \<longrightarrow>
        (\<exists>out. reduce_samplerate sample_data ratio = Inr out
           \<and> (\<forall>k<length out.
                 out ! k = truncated_quotient
                             (sum_list (window sample_data ratio (k * nat \<bar>ratio\<bar>))) ratio)))"
proof (intro conjI impI allI)
  show "length (twos_complement sample_data max_value) = length sample_data"
    by (simp add: twos_complement_map)
next
  fix i
  assume "i < length sample_data"
  then show "twos_complement sample_data max_value ! i
           = twos_complement_value (sample_data ! i) max_value"
    by (simp add: twos_complement_map)
next
  fix out k
  assume r: "ratio \<noteq> 0" and out: "reduce_samplerate sample_data ratio = Inr out"
    and k: "k < length out"
  let ?c = "(length sample_data + nat \<bar>ratio\<bar> - 1) div nat \<bar>ratio\<bar>"
  let ?blocks = "map (\<lambda>k. k * nat \<bar>ratio\<bar>) [0..<?c]"
  have "collect (map (emission sample_data ratio) (emit_indices (length sample_data) ratio))
          = Inr out"
    using out by (simp only: reduce_samplerate_closed [OF r])
  then have "collect (map (emission sample_data ratio) ?blocks) = Inr out"
    by (simp only: emit_indices_multiples [OF r])
  from collect_nth [OF this]
  have len: "length out = ?c"
    and nth: "\<forall>j<?c. map (emission sample_data ratio) ?blocks ! j = Inr (out ! j)"
    by simp_all
  from nth k len have "map (emission sample_data ratio) ?blocks ! k = Inr (out ! k)"
    by simp
  then show "emission sample_data ratio (k * nat \<bar>ratio\<bar>) = Inr (out ! k)"
    using k len by simp
next
  assume "ratio \<noteq> 0 \<and> exact_range sample_data ratio"
  then have r: "ratio \<noteq> 0" and range: "exact_range sample_data ratio" by simp_all
  let ?c = "(length sample_data + nat \<bar>ratio\<bar> - 1) div nat \<bar>ratio\<bar>"
  let ?f = "\<lambda>i. truncated_quotient (sum_list (window sample_data ratio i)) ratio"
  let ?out = "map ?f (map (\<lambda>k. k * nat \<bar>ratio\<bar>) [0..<?c])"
  have "reduce_samplerate sample_data ratio
          = Inr (map ?f (emit_indices (length sample_data) ratio))"
    using r range by (rule reduce_samplerate_exact)
  also have "emit_indices (length sample_data) ratio = map (\<lambda>k. k * nat \<bar>ratio\<bar>) [0..<?c]"
    using r by (rule emit_indices_multiples)
  finally have "reduce_samplerate sample_data ratio = Inr ?out" .
  moreover have "\<forall>k<length ?out. ?out ! k = ?f (k * nat \<bar>ratio\<bar>)"
    by simp
  ultimately show "\<exists>out. reduce_samplerate sample_data ratio = Inr out
           \<and> (\<forall>k<length out.
                 out ! k = truncated_quotient
                             (sum_list (window sample_data ratio (k * nat \<bar>ratio\<bar>))) ratio)"
    by blast
qed

theorem stages_keep_order_witness:
  "length (twos_complement [200, 72, 0] 127) = length [200, 72, 0 :: int]
   \<and> (1 :: nat) < length [200, 72, 0 :: int]
   \<and> twos_complement [200, 72, 0] 127 ! 1 = twos_complement_value ([200, 72, 0] ! 1) 127
   \<and> (2 :: int) \<noteq> 0 \<and> exact_range [200, 72, 0] 2
   \<and> reduce_samplerate [200, 72, 0] 2 = Inr [100, 36]
   \<and> (1 :: nat) < length [100, 36 :: int]
   \<and> emission [200, 72, 0] 2 (1 * nat \<bar>2\<bar>) = Inr ([100, 36] ! 1)
   \<and> [100, 36] ! 1 = truncated_quotient (sum_list (window [200, 72, 0] 2 (1 * nat \<bar>2\<bar>))) 2"
proof -
  note order = stages_keep_order [of "[200, 72, 0]" 127 2]
  have range: "exact_range [200, 72, 0] 2"
    by code_simp
  have out: "reduce_samplerate [200, 72, 0] 2 = Inr [100, 36]"
    by code_simp
  from order out have "\<forall>k<length [100, 36 :: int].
      emission [200, 72, 0] 2 (k * nat \<bar>2\<bar>) = Inr ([100, 36] ! k)"
    by simp
  then have "1 < length [100, 36 :: int] \<longrightarrow>
      emission [200, 72, 0] 2 (1 * nat \<bar>2\<bar>) = Inr ([100, 36] ! 1)"
    by (rule spec)
  then have float: "emission [200, 72, 0] 2 (1 * nat \<bar>2\<bar>) = Inr ([100, 36] ! 1)"
    by simp
  from order range out have "\<forall>k<length [100, 36 :: int].
      [100, 36] ! k = truncated_quotient (sum_list (window [200, 72, 0] 2 (k * nat \<bar>2\<bar>))) 2"
    by simp
  then have "1 < length [100, 36 :: int] \<longrightarrow>
      [100, 36] ! 1 = truncated_quotient (sum_list (window [200, 72, 0] 2 (1 * nat \<bar>2\<bar>))) 2"
    by (rule spec)
  then have exact:
    "[100, 36] ! 1 = truncated_quotient (sum_list (window [200, 72, 0] 2 (1 * nat \<bar>2\<bar>))) 2"
    by simp
  from order have tc:
    "twos_complement [200, 72, 0] 127 ! 1 = twos_complement_value ([200, 72, 0] ! 1) 127"
    by simp
  from order have len:
    "length (twos_complement [200, 72, 0] 127) = length [200, 72, 0 :: int]"
    by simp
  show ?thesis
    by (intro conjI range out float exact tc len) simp_all
qed

subsection \<open>File reader\<close>

text \<open>
  C5 says that a data line whose first token begins with any decimal digit is read in
  base 10, so that a sequence reads the same in decimal and in hexadecimal form. The
  samples \<open>0, 1, 2\<close> in hexadecimal form are read as \<open>[0, 1, 2]\<close>; in decimal form the
  line begins with the digit \<open>0\<close> and the code returns no value for it, although each
  token converts in base 10.
\<close>

theorem decimal_line_leading_zero_skipped:
  "read_file [''kick.h'' \<mapsto> header_decimal] ''kick.h'' ''static const'' = Inr []
   \<and> read_file [''kick.h'' \<mapsto> header_hex] ''kick.h'' ''static const'' = Inr [0, 1, 2]
   \<and> process_line ''0, 1, 2,\<newline>'' = Inr []
   \<and> int_each [''0'', '' 1'', '' 2''] 10 [] = Inr [0, 1, 2]"
  by code_simp

text \<open>
  C7. When the file is there and none of its lines starts with the marker,
  \<open>Filereader.read_file\<close> returns the empty sequence and raises nothing.
\<close>

theorem read_file_no_marker:
  assumes "fs file = Some f"
    and "\<forall>line\<in>set f. \<not> str_startswith line startswith"
  shows "read_file fs file startswith = Inr []"
  using assms by (simp add: read_file_def read_loop_no_marker)

theorem read_file_no_marker_witness:
  "[''kick.h'' \<mapsto> header_no_marker] ''kick.h'' = Some header_no_marker
   \<and> list_all (\<lambda>line. \<not> str_startswith line ''static const'') header_no_marker
   \<and> read_file [''kick.h'' \<mapsto> header_no_marker] ''kick.h'' ''static const'' = Inr []"
proof -
  have lines: "list_all (\<lambda>line. \<not> str_startswith line ''static const'') header_no_marker"
    by (simp add: header_no_marker_def)
  then have "\<forall>line\<in>set header_no_marker. \<not> str_startswith line ''static const''"
    by (simp only: list_all_iff)
  then have "read_file [''kick.h'' \<mapsto> header_no_marker] ''kick.h'' ''static const'' = Inr []"
    by (intro read_file_no_marker [of _ _ header_no_marker]) simp_all
  with lines show ?thesis by simp
qed

text \<open>
  C10. A data line of whitespace only, after the line with the marker, makes
  \<open>Filereader.read_file\<close> fail with \<open>IndexError\<close>: the stripped line splits into one
  empty token, that token is dropped, and the first token of the empty list is read.
\<close>

theorem blank_data_line_raises:
  assumes "str_startswith marker_line startswith"
    and "list_all is_space line"
    and "\<not> str_startswith line startswith"
  shows "process_line line = Inl IndexError
         \<and> read_file (fs(file \<mapsto> marker_line # line # rest)) file startswith = Inl IndexError"
proof -
  have blank: "process_line line = Inl IndexError"
    using assms(2) by (rule process_line_blank)
  have "\<not> str_startswith line ''};''"
    using assms(2) by (rule blank_not_terminator)
  then have "read_loop (marker_line # line # rest) startswith False [] = Inl IndexError"
    using assms(1,3) blank by simp
  then show ?thesis using blank by (simp add: read_file_def)
qed

theorem blank_data_line_raises_witness:
  "str_startswith ''static const unsigned char kick[] = {\<newline>'' ''static const''
   \<and> list_all is_space ''  \<newline>''
   \<and> \<not> str_startswith ''  \<newline>'' ''static const''
   \<and> process_line ''  \<newline>'' = Inl IndexError
   \<and> read_file [''kick.h'' \<mapsto> [''static const unsigned char kick[] = {\<newline>'', ''  \<newline>'', ''};\<newline>'']]
        ''kick.h'' ''static const'' = Inl IndexError
   \<and> read_file [''kick.h'' \<mapsto> header_blank_line] ''kick.h'' ''static const'' = Inl IndexError"
proof -
  have "read_file [''kick.h'' \<mapsto> header_blank_line] ''kick.h'' ''static const'' = Inl IndexError"
    by code_simp
  then show ?thesis
    using blank_data_line_raises
      [of "''static const unsigned char kick[] = {\<newline>''" "''static const''" "''  \<newline>''"
          Map.empty "''kick.h''" "[''};\<newline>'']"]
    by (simp add: is_space_def)
qed

subsection \<open>Driver\<close>

text \<open>
  C6 says that \<open>-wb\<close> without \<open>-sr\<close> is rejected with a usage error before any
  transform or file access. For \<^verbatim>\<open>kick.h -t -wb out.wav\<close> the code opens and reads the
  input file, re-encodes the samples and calls the wave file writer with no sample rate;
  the run ends there with the \<open>TypeError\<close> of the writer, not with a usage error.
\<close>

theorem writeback_without_samplerate_runs:
  "arg_wb args_wb_without_sr = Some ''out.wav'' \<and> arg_sr args_wb_without_sr = None
   \<and> main [''kick.h'' \<mapsto> header_hex] args_wb_without_sr
       = ([Open_file ''kick.h'', Write_wavefile [0, 1, 2] ''out.wav'' None], Some TypeError)"
  by code_simp

end
